theory Spec2Isabelle
  imports Main
begin

section \<open>Errors\<close>

text \<open>
  Every exception a modelled function of \<^verbatim>\<open>pyfrost\<close> can raise is a value of
  \<open>py_error\<close>; a fallible function returns \<open>py_error + 'a\<close>, \<open>Inl\<close> being the raise.
\<close>

datatype py_error =
    ZeroDivisionError
  | IndexError
  | ValueError
  | AttributeError
  | KeyError
  | AssertionError
  | TypeError
  | OverflowError
  | UnboundLocalError

section \<open>Sequencing\<close>

text \<open>
  Sequencing of fallible steps: the first exception ends the computation. \<open>fold_err\<close> is
  a loop whose body may raise.
\<close>

definition and_then :: "py_error + 'a \<Rightarrow> ('a \<Rightarrow> py_error + 'b) \<Rightarrow> py_error + 'b" where
  "and_then r k = (case r of Inl e \<Rightarrow> Inl e | Inr v \<Rightarrow> k v)"

primrec fold_err :: "('a \<Rightarrow> 's \<Rightarrow> py_error + 's) \<Rightarrow> 'a list \<Rightarrow> 's \<Rightarrow> py_error + 's" where
  "fold_err body [] s = Inr s"
| "fold_err body (x # xs) s = and_then (body x s) (fold_err body xs)"

section \<open>The curve order and the point group\<close>

text \<open>
  \<^verbatim>\<open>crypto_utils.py\<close> takes the curve from the library \<^verbatim>\<open>fastecdsa\<close>:
  \<^verbatim>\<open>ecurve = curve.secp256k1\<close>, \<^verbatim>\<open>N = ecurve.q\<close>. The library is not part of the
  repository, so the order is a parameter \<open>q\<close> of every function that uses \<^verbatim>\<open>N\<close>;
  \<open>secp256k1_q\<close> is the value the library gives it.

  The points of the curve form a cyclic group generated by \<^verbatim>\<open>ecurve.G\<close> whose order is
  \<open>q\<close>, so every point, the identity included, is \<open>k\<cdot>G\<close> for exactly one \<open>k\<close> in
  \<open>[0, q)\<close>. A point is represented by that \<open>k\<close>, the identity (the library's
  \<^verbatim>\<open>Point.IDENTITY_ELEMENT\<close>) by 0; \<^verbatim>\<open>P == Q\<close> is equality.

  The library's \<^verbatim>\<open>P + Q\<close> is \<open>point_add\<close>; it returns the other operand when one is the
  identity. The library's \<^verbatim>\<open>k * P\<close> is \<open>point_mul\<close>: it reads \<^verbatim>\<open>self.curve.q\<close>, and the
  identity element has no curve, so multiplying the identity raises
  \<^verbatim>\<open>AttributeError\<close>; on any other point it returns the multiple, which is the identity
  when \<open>k\<close> is a multiple of the order.
\<close>

definition secp256k1_q :: int where
  "secp256k1_q = 115792089237316195423570985008687907852837564279074904382605163141518161494337"

definition is_prime :: "int \<Rightarrow> bool" where
  "is_prime p \<longleftrightarrow> 1 < p \<and> (\<forall>d \<in> {2..<p}. \<not> d dvd p)"

type_synonym point = int

definition G :: "int \<Rightarrow> point" where
  "G q = 1 mod q"

definition point_add :: "int \<Rightarrow> point \<Rightarrow> point \<Rightarrow> point" where
  "point_add q P Q = (P + Q) mod q"

definition point_mul :: "int \<Rightarrow> int \<Rightarrow> point \<Rightarrow> py_error + point" where
  "point_mul q k P = (if P = 0 then Inl AttributeError else Inr ((k * P) mod q))"

text \<open>
  \<^verbatim>\<open>keys.get_public_key(d, curve)\<close> of the library is \<^verbatim>\<open>d * curve.G\<close>; the base point
  is not the identity, so this multiplication does not raise.
\<close>

definition get_public_key :: "int \<Rightarrow> int \<Rightarrow> point" where
  "get_public_key q d = (d * G q) mod q"

section \<open>crypto\_utils: modular inverse\<close>

text \<open>
  \<^verbatim>\<open>mod_inverse(number, modulus)\<close>: the loop \<^verbatim>\<open>while number > 1\<close> is
  \<open>mod_inverse_loop\<close> on the four variables it updates; \<^verbatim>\<open>number // modulus\<close> raises
  \<^verbatim>\<open>ZeroDivisionError\<close> when the modulus has become 0, and so does the first
  \<^verbatim>\<open>number % modulus\<close> when the modulus is 0 at the call.
\<close>

function mod_inverse_loop :: "int \<Rightarrow> int \<Rightarrow> int \<Rightarrow> int \<Rightarrow> py_error + int" where
  "mod_inverse_loop number modulus inverse' intermediate =
     (if number > 1 then
        (if modulus = 0 then Inl ZeroDivisionError
         else mod_inverse_loop modulus (number mod modulus) intermediate
                (inverse' - (number div modulus) * intermediate))
      else Inr inverse')"
  by pat_completeness auto
termination
  by (relation "measure (\<lambda>(number, modulus, inverse', intermediate). nat \<bar>modulus\<bar>)")
     (auto simp: abs_mod_less)

declare mod_inverse_loop.simps [simp del]

definition mod_inverse :: "int \<Rightarrow> int \<Rightarrow> py_error + int" where
  "mod_inverse number modulus =
     (if modulus = 0 then Inl ZeroDivisionError
      else if modulus = 1 then Inr 0
      else (case mod_inverse_loop (number mod modulus) modulus 1 0 of
              Inl e \<Rightarrow> Inl e
            | Inr inverse' \<Rightarrow> Inr (if inverse' < 0 then inverse' + modulus else inverse')))"

section \<open>crypto\_utils: polynomials\<close>

text \<open>
  \<^verbatim>\<open>class Polynomial\<close>: the threshold and the coefficient list (the curve is the
  module's \<^verbatim>\<open>ecurve\<close>). The constructor puts \<^verbatim>\<open>coefficient0\<close> first when it is given
  and then draws \<^verbatim>\<open>threshold - len(coefficients)\<close> private keys from the library's
  random generator; \<open>rnd\<close> is the supply of the keys drawn.
\<close>

record polynomial =
  threshold :: nat
  coefficients :: "int list"

definition new_polynomial :: "nat \<Rightarrow> int option \<Rightarrow> int list \<Rightarrow> polynomial" where
  "new_polynomial t coefficient0 rnd =
     (let cs = (case coefficient0 of None \<Rightarrow> [] | Some c \<Rightarrow> [c])
      in \<lparr>threshold = t, coefficients = cs @ take (t - length cs) rnd\<rparr>)"

text \<open>
  \<^verbatim>\<open>Polynomial.evaluate\<close>: \<^verbatim>\<open>result += self.coefficients[i] * pow(x, i)\<close> for \<open>i\<close> in
  \<^verbatim>\<open>range(len(self.coefficients))\<close>, then \<^verbatim>\<open>return result\<close>.
\<close>

definition evaluate :: "polynomial \<Rightarrow> int \<Rightarrow> int" where
  "evaluate f x =
     foldl (\<lambda>result i. result + coefficients f ! i * x ^ i) 0 [0..<length (coefficients f)]"

definition coef_pub_keys :: "int \<Rightarrow> polynomial \<Rightarrow> point list" where
  "coef_pub_keys q f = map (\<lambda>coefficient. get_public_key q coefficient) (coefficients f)"

text \<open>
  \<^verbatim>\<open>calc_poly_point(polynomial, x)\<close>: \<^verbatim>\<open>coefs[0] * polynomial[0]\<close> raises
  \<^verbatim>\<open>IndexError\<close> on an empty list, and every product \<^verbatim>\<open>coefs[i] * polynomial[i]\<close>
  raises \<^verbatim>\<open>AttributeError\<close> when \<^verbatim>\<open>polynomial[i]\<close> is the identity.
\<close>

definition calc_poly_point :: "int \<Rightarrow> point list \<Rightarrow> int \<Rightarrow> py_error + point" where
  "calc_poly_point q polynomial x =
     (let coefs = map (\<lambda>i. x ^ i mod q) [0..<length polynomial]
      in if polynomial = [] then Inl IndexError
         else and_then (point_mul q (coefs ! 0) (polynomial ! 0)) (\<lambda>result0.
                fold_err (\<lambda>i result.
                            and_then (point_mul q (coefs ! i) (polynomial ! i)) (\<lambda>summand.
                              Inr (point_add q result summand)))
                  [1..<length polynomial] result0))"

section \<open>crypto\_utils: Lagrange interpolation\<close>

text \<open>
  A share is the dictionary \<^verbatim>\<open>{'id': ..., 'key': ...}\<close>; \<open>share_id\<close> is
  \<^verbatim>\<open>int(share['id'])\<close>.

  \<^verbatim>\<open>langrange_coef(index, threshold, shares, x)\<close> reads only the \<^verbatim>\<open>'id'\<close> entries
  of \<^verbatim>\<open>shares\<close>, so its model takes the list \<open>ids\<close> of these entries. A subscript
  beyond the list raises \<^verbatim>\<open>IndexError\<close>. The result is
  \<^verbatim>\<open>mod_inverse(denum, N) * num\<close>, not reduced.
\<close>

record share =
  share_id :: int
  share_key :: int

definition langrange_coef :: "int \<Rightarrow> nat \<Rightarrow> nat \<Rightarrow> int list \<Rightarrow> int \<Rightarrow> py_error + int" where
  "langrange_coef q index t ids x =
     (if length ids \<le> index then Inl IndexError
      else
        let x_j = ids ! index;
            ks = filter (\<lambda>i. i \<noteq> index) [0..<t]
        in if \<exists>k \<in> set ks. length ids \<le> k then Inl IndexError
           else
             let nums = map (\<lambda>k. x - ids ! k) ks;
                 denums = map (\<lambda>k. x_j - ids ! k) ks;
                 num = prod_list nums;
                 denum = prod_list denums
             in (case mod_inverse denum q of
                   Inl e \<Rightarrow> Inl e
                 | Inr inv_denum \<Rightarrow> Inr (inv_denum * num)))"

text \<open>
  \<^verbatim>\<open>reconstruct_share(shares, threshold, x)\<close>: the assertion on the number of
  shares, then the loop \<^verbatim>\<open>for j in range(threshold)\<close> with
  \<^verbatim>\<open>sum = (sum + (key * coef % N)) % N\<close>, then \<^verbatim>\<open>return sum % N\<close>.
\<close>

fun reconstruct_loop :: "int \<Rightarrow> share list \<Rightarrow> nat \<Rightarrow> int \<Rightarrow> nat list \<Rightarrow> int \<Rightarrow> py_error + int" where
  "reconstruct_loop q shares t x [] sum_acc = Inr sum_acc"
| "reconstruct_loop q shares t x (j # js) sum_acc =
     (case langrange_coef q j t (map share_id shares) x of
        Inl e \<Rightarrow> Inl e
      | Inr coef \<Rightarrow>
          reconstruct_loop q shares t x js ((sum_acc + (share_key (shares ! j) * coef) mod q) mod q))"

definition reconstruct_share :: "int \<Rightarrow> share list \<Rightarrow> nat \<Rightarrow> int \<Rightarrow> py_error + int" where
  "reconstruct_share q shares t x =
     (if length shares \<noteq> t then Inl AssertionError
      else (case reconstruct_loop q shares t x [0..<t] 0 of
              Inl e \<Rightarrow> Inl e
            | Inr sum_acc \<Rightarrow> Inr (sum_acc mod q)))"

section \<open>Auxiliary notions of the proofs\<close>

text \<open>
  The value of a coefficient list at a point, by Horner's rule, and the functions that are
  given by a coefficient list of at most \<open>n\<close> entries.
\<close>

primrec poly_eval :: "int list \<Rightarrow> int \<Rightarrow> int" where
  "poly_eval [] x = 0"
| "poly_eval (c # cs) x = c + x * poly_eval cs x"

definition polyfun :: "nat \<Rightarrow> (int \<Rightarrow> int) \<Rightarrow> bool" where
  "polyfun n g \<longleftrightarrow> (\<exists>cs. length cs \<le> n \<and> (\<forall>x. g x = poly_eval cs x))"

section \<open>Python strings and bytes\<close>

text \<open>
  Text and byte strings are lists of characters. \<open>str_base\<close> writes a natural number in
  a base, with the digits \<open>digit_char\<close>, and \<open>decimal_digits\<close> is the decimal
  representation of an integer.

  \<open>py_str\<close> is \<^verbatim>\<open>str(n)\<close> on an integer. CPython converts no integer of more than
  \<open>max_str_digits\<close> decimal digits, the sign not counted: it raises \<^verbatim>\<open>ValueError\<close>
  instead. The limit is \<^verbatim>\<open>sys.int_info.default_max_str_digits\<close>, 4300, which the package
  never changes.
\<close>

type_synonym bytes = "char list"

definition digit_char :: "nat \<Rightarrow> char" where
  "digit_char d = (if d < 10 then char_of (48 + d) else char_of (87 + d))"

function str_base :: "nat \<Rightarrow> nat \<Rightarrow> string" where
  "str_base b n =
     (if b < 2 \<or> n < b then [digit_char n] else str_base b (n div b) @ [digit_char (n mod b)])"
  by pat_completeness auto
termination
  by (relation "measure (\<lambda>(b, n). n)") auto

declare str_base.simps [simp del]

definition decimal_digits :: "int \<Rightarrow> string" where
  "decimal_digits n = (if n < 0 then CHR ''-'' # str_base 10 (nat (- n)) else str_base 10 (nat n))"

definition max_str_digits :: nat where
  "max_str_digits = 4300"

definition py_str :: "int \<Rightarrow> py_error + string" where
  "py_str n = (if 10 ^ max_str_digits \<le> \<bar>n\<bar> then Inl ValueError else Inr (decimal_digits n))"

text \<open>The value of a hexadecimal digit, in either case.\<close>

definition hex_val :: "char \<Rightarrow> nat option" where
  "hex_val c =
     (let n = (of_char c :: nat)
      in if 48 \<le> n \<and> n \<le> 57 then Some (n - 48)
         else if 97 \<le> n \<and> n \<le> 102 then Some (n - 87)
         else if 65 \<le> n \<and> n \<le> 70 then Some (n - 55)
         else None)"

text \<open>
  \<^verbatim>\<open>bytes.fromhex(s)\<close>: two hexadecimal digits make a byte, blanks between bytes are
  skipped, anything else (a lone digit at the end, another character) raises
  \<^verbatim>\<open>ValueError\<close>.
\<close>

definition is_space :: "char \<Rightarrow> bool" where
  "is_space c \<longleftrightarrow> (of_char c :: nat) \<in> {9, 10, 11, 12, 13, 32}"

fun fromhex :: "string \<Rightarrow> py_error + bytes" where
  "fromhex [] = Inr []"
| "fromhex [a] = (if is_space a then Inr [] else Inl ValueError)"
| "fromhex (a # b # cs) =
     (if is_space a then fromhex (b # cs)
      else (case (hex_val a, hex_val b) of
              (Some x, Some y) \<Rightarrow>
                (case fromhex cs of Inl e \<Rightarrow> Inl e | Inr bs \<Rightarrow> Inr (char_of (16 * x + y) # bs))
            | _ \<Rightarrow> Inl ValueError))"

section \<open>crypto\_utils: the key derivation\<close>

text \<open>
  \<^verbatim>\<open>generate_hkdf_key(key)\<close> is \<^verbatim>\<open>hkdf.derive(bytes.fromhex(str(key)))\<close>, where
  \<^verbatim>\<open>hkdf\<close> is the \<^verbatim>\<open>HKDF\<close> object of the library \<^verbatim>\<open>cryptography\<close> made with SHA-256,
  length 32, empty salt and empty info; its \<^verbatim>\<open>derive\<close> is the parameter \<open>derive\<close>.
\<close>

definition generate_hkdf_key :: "(bytes \<Rightarrow> bytes) \<Rightarrow> int \<Rightarrow> py_error + bytes" where
  "generate_hkdf_key derive key =
     and_then (py_str key) (\<lambda>key_text.
     and_then (fromhex key_text) (\<lambda>key_bytes.
       Inr (derive key_bytes)))"


section \<open>Auxiliary notions of the digit strings\<close>

text \<open>
  The characters that are digits of a base, and the number that a digit string writes in
  a base (\<open>Inl\<close> when a character is no digit of the base).
\<close>

definition is_digit_of :: "nat \<Rightarrow> char \<Rightarrow> bool" where
  "is_digit_of b c \<longleftrightarrow> (\<exists>d<b. c = digit_char d)"


section \<open>Methods, lists and dictionaries\<close>

text \<open>
  A sequence of fallible steps inside a method: \<open>or_raise r self k\<close> ends the method with
  the exception of \<open>r\<close> and the object as it is at that moment, or goes on with the value
  of \<open>r\<close>.
\<close>

definition or_raise ::
  "py_error + 'a \<Rightarrow> 's \<Rightarrow> ('a \<Rightarrow> (py_error + 'b) \<times> 's) \<Rightarrow> (py_error + 'b) \<times> 's" where
  "or_raise r self k = (case r of Inl e \<Rightarrow> (Inl e, self) | Inr v \<Rightarrow> k v)"

primrec map_err :: "('a \<Rightarrow> py_error + 'b) \<Rightarrow> 'a list \<Rightarrow> py_error + 'b list" where
  "map_err g [] = Inr []"
| "map_err g (x # xs) = and_then (g x) (\<lambda>y. and_then (map_err g xs) (\<lambda>ys. Inr (y # ys)))"

text \<open>\<^verbatim>\<open>xs[0]\<close>, \<^verbatim>\<open>d[k]\<close> on a dictionary, and the read of an attribute of \<^verbatim>\<open>self\<close>.\<close>

definition first_item :: "'a list \<Rightarrow> py_error + 'a" where
  "first_item xs = (case xs of [] \<Rightarrow> Inl IndexError | x # _ \<Rightarrow> Inr x)"

definition dict_get :: "('k \<rightharpoonup> 'v) \<Rightarrow> 'k \<Rightarrow> py_error + 'v" where
  "dict_get d k = (case d k of None \<Rightarrow> Inl KeyError | Some v \<Rightarrow> Inr v)"

definition attribute :: "'a option \<Rightarrow> py_error + 'a" where
  "attribute a = (case a of None \<Rightarrow> Inl AttributeError | Some v \<Rightarrow> Inr v)"

text \<open>
  A loop whose body changes the object and may raise: an exception ends the loop with the
  object as the body left it.
\<close>

primrec for_each ::
  "('a \<Rightarrow> 's \<Rightarrow> (py_error + unit) \<times> 's) \<Rightarrow> 'a list \<Rightarrow> 's \<Rightarrow> (py_error + unit) \<times> 's" where
  "for_each body [] self = (Inr (), self)"
| "for_each body (x # xs) self =
     (case body x self of
        (Inl e, self') \<Rightarrow> (Inl e, self')
      | (Inr _, self') \<Rightarrow> for_each body xs self')"

section \<open>The libraries\<close>

text \<open>
  The functions that \<^verbatim>\<open>pyfrost\<close> takes from \<^verbatim>\<open>fastecdsa\<close>, \<^verbatim>\<open>web3\<close>, \<^verbatim>\<open>hashlib\<close>,
  \<^verbatim>\<open>cryptography\<close>, \<^verbatim>\<open>json\<close> and the built-ins are the fields of a record that every
  function calling them receives; a fallible field raises whatever the library raises:
  \<^item> \<open>order\<close>: \<^verbatim>\<open>ecurve.q\<close>, which is also the module's \<^verbatim>\<open>N\<close>;
  \<^item> \<open>point_x\<close>, \<open>point_y\<close>: the attributes \<^verbatim>\<open>x\<close> and \<^verbatim>\<open>y\<close> of a point;
  \<^item> \<open>sec1_encode\<close>: \<^verbatim>\<open>SEC1Encoder.encode_public_key(P, True)\<close>, and \<open>sec1_decode\<close>:
    \<^verbatim>\<open>SEC1Encoder.decode_public_key(b, ecurve)\<close>;
  \<^item> \<open>keccak\<close>: \<^verbatim>\<open>Web3.keccak\<close> on an integer, \<open>hexbytes_hex\<close>: the method \<^verbatim>\<open>hex()\<close> of
    its result, and \<open>to_checksum_address\<close>: \<^verbatim>\<open>Web3.to_checksum_address\<close>;
  \<^item> \<open>sha256\<close>: \<^verbatim>\<open>sha256(b).digest()\<close>;
  \<^item> \<open>hkdf_derive\<close>: the \<^verbatim>\<open>derive\<close> of the HKDF object of \<^verbatim>\<open>generate_hkdf_key\<close>;
  \<^item> \<open>fernet_encrypt\<close>: \<^verbatim>\<open>Fernet(base64.b64encode(key)).encrypt(data.encode()).decode('utf-8')\<close>,
    whose first argument is what the call draws from the random generator and the clock;
    \<open>fernet_decrypt\<close>:
    \<^verbatim>\<open>Fernet(base64.b64encode(key)).decrypt(bytes(data, 'utf-8')).decode()\<close>;
  \<^item> \<open>json_dumps\<close>: \<^verbatim>\<open>json.dumps\<close> on a dictionary with the keys \<^verbatim>\<open>receiver_id\<close> and
    \<^verbatim>\<open>f\<close> (it raises \<^verbatim>\<open>ValueError\<close> on an integer of more than 4300 digits);
    \<open>json_loads\<close>: \<^verbatim>\<open>json.loads\<close> on the text of such a dictionary;
  \<^item> \<open>int_of_str\<close>: \<^verbatim>\<open>int(s)\<close> on a string, and \<open>int_of_hex\<close>: \<^verbatim>\<open>int(s, 16)\<close>.
\<close>

record share_payload =
  payload_receiver_id :: string
  payload_f :: int

record libraries =
  order :: int
  point_x :: "point \<Rightarrow> int"
  point_y :: "point \<Rightarrow> int"
  sec1_encode :: "point \<Rightarrow> py_error + bytes"
  sec1_decode :: "bytes \<Rightarrow> py_error + point"
  keccak :: "int \<Rightarrow> py_error + bytes"
  hexbytes_hex :: "bytes \<Rightarrow> string"
  to_checksum_address :: "string \<Rightarrow> py_error + string"
  sha256 :: "bytes \<Rightarrow> bytes"
  hkdf_derive :: "bytes \<Rightarrow> bytes"
  fernet_encrypt :: "bytes \<Rightarrow> bytes \<Rightarrow> string \<Rightarrow> py_error + string"
  fernet_decrypt :: "bytes \<Rightarrow> string \<Rightarrow> py_error + string"
  json_dumps :: "share_payload \<Rightarrow> py_error + string"
  json_loads :: "string \<Rightarrow> py_error + share_payload"
  int_of_str :: "string \<Rightarrow> py_error + int"
  int_of_hex :: "string \<Rightarrow> py_error + int"

section \<open>crypto\_utils: encodings, signatures and encryption\<close>

text \<open>
  \<^verbatim>\<open>hex(n)\<close>; \<^verbatim>\<open>n.to_bytes(length, "big")\<close>, which raises \<^verbatim>\<open>OverflowError\<close> on a
  negative integer and on one that does not fit; \<^verbatim>\<open>int.from_bytes(b, "big")\<close>.
\<close>

definition py_hex :: "int \<Rightarrow> string" where
  "py_hex n = (if n < 0 then ''-0x'' @ str_base 16 (nat (- n)) else ''0x'' @ str_base 16 (nat n))"

fun be_bytes :: "nat \<Rightarrow> nat \<Rightarrow> bytes" where
  "be_bytes 0 n = []"
| "be_bytes (Suc len) n = be_bytes len (n div 256) @ [char_of (n mod 256)]"

definition to_bytes :: "nat \<Rightarrow> int \<Rightarrow> py_error + bytes" where
  "to_bytes len n =
     (if n < 0 \<or> 256 ^ len \<le> n then Inl OverflowError else Inr (be_bytes len (nat n)))"

definition from_bytes :: "bytes \<Rightarrow> int" where
  "from_bytes bs = int (foldl (\<lambda>acc c. acc * 256 + of_char c) 0 bs)"

text \<open>
  \<^verbatim>\<open>pub_to_addr\<close>: the hexadecimal digits of the two coordinates, read as one number
  and hashed; the last 40 characters of the hash's text make the address.
\<close>

definition pub_to_addr :: "libraries \<Rightarrow> point \<Rightarrow> py_error + string" where
  "pub_to_addr L public_key =
     (let pub_key_hex = drop 2 (py_hex (point_x L public_key))
                        @ drop 2 (py_hex (point_y L public_key))
      in and_then (int_of_hex L pub_key_hex) (\<lambda>n.
         and_then (keccak L n) (\<lambda>pub_hash.
           let hash_text = hexbytes_hex L pub_hash
           in to_checksum_address L (''0x'' @ drop (length hash_text - 40) hash_text))))"

text \<open>
  \<^verbatim>\<open>pub_to_code\<close> reads the hexadecimal text of the encoding as a number, which is the
  big-endian value of its bytes; \<^verbatim>\<open>int('', 16)\<close> raises \<^verbatim>\<open>ValueError\<close>.
\<close>

definition pub_to_code :: "libraries \<Rightarrow> point \<Rightarrow> py_error + int" where
  "pub_to_code L public_key =
     and_then (sec1_encode L public_key) (\<lambda>comp_pub.
       if comp_pub = [] then Inl ValueError else Inr (from_bytes comp_pub))"

text \<open>
  \<^verbatim>\<open>code_to_pub\<close>: \<^verbatim>\<open>hex(key).replace('x', '')\<close> is \<^verbatim>\<open>0\<close> followed by the hexadecimal
  digits of a non-negative \<^verbatim>\<open>key\<close>; for a negative one it begins with \<^verbatim>\<open>-\<close>, which
  \<^verbatim>\<open>bytes.fromhex\<close> refuses.
\<close>

definition code_to_pub :: "libraries \<Rightarrow> int \<Rightarrow> py_error + point" where
  "code_to_pub L key =
     and_then (fromhex (filter (\<lambda>c. c \<noteq> CHR ''x'') (py_hex key))) (\<lambda>key_byte.
       sec1_decode L key_byte)"

text \<open>
  \<^verbatim>\<open>schnorr_hash(public_key, message)\<close>: the address without its first two characters,
  then \<^verbatim>\<open>hex(message)[2:]\<close>, read as one hexadecimal number and hashed.
\<close>

definition schnorr_hash :: "libraries \<Rightarrow> point \<Rightarrow> int \<Rightarrow> py_error + bytes" where
  "schnorr_hash L public_key message =
     and_then (pub_to_addr L public_key) (\<lambda>address.
       let addressBuff = drop 2 address;
           msgBuff = drop 2 (py_hex message);
           totalBuff = addressBuff @ msgBuff
       in and_then (int_of_hex L totalBuff) (\<lambda>total. keccak L total))"

record signature =
  sig_s :: int
  sig_e :: int

definition split_signature :: "libraries \<Rightarrow> string \<Rightarrow> py_error + signature" where
  "split_signature L string_signature =
     (let raw_bytes = drop 2 string_signature
      in if length raw_bytes \<noteq> 128 then Inl AssertionError
         else
           let e = ''0x'' @ take 64 raw_bytes;
               s = ''0x'' @ drop 64 raw_bytes
           in and_then (int_of_hex L s) (\<lambda>s_int.
              and_then (int_of_hex L e) (\<lambda>e_int.
                Inr \<lparr>sig_s = s_int, sig_e = e_int\<rparr>)))"

text \<open>
  \<^verbatim>\<open>schnorr_verify\<close> on a signature given as a string and a message given as an
  integer, as \<^verbatim>\<open>round2\<close> calls it.
\<close>

definition schnorr_verify :: "libraries \<Rightarrow> point \<Rightarrow> int \<Rightarrow> string \<Rightarrow> py_error + bool" where
  "schnorr_verify L public_key message signature_text =
     and_then (split_signature L signature_text) (\<lambda>signature.
       if \<not> sig_s signature < order L then Inl AssertionError
       else
         and_then (point_mul (order L) (sig_s signature) (G (order L))) (\<lambda>s_point.
         and_then (point_mul (order L) (sig_e signature) public_key) (\<lambda>e_point.
         let r_v = point_add (order L) s_point e_point
         in and_then (schnorr_hash L r_v message) (\<lambda>e_v.
              Inr (from_bytes e_v = sig_e signature)))))"

text \<open>
  \<^verbatim>\<open>encrypt\<close> on a dictionary, which it first turns into text with \<^verbatim>\<open>json.dumps\<close>, and
  \<^verbatim>\<open>decrypt\<close>. The argument \<open>drawn\<close> is what the encryption draws from the random
  generator and the clock.
\<close>

definition encrypt :: "libraries \<Rightarrow> bytes \<Rightarrow> share_payload \<Rightarrow> bytes \<Rightarrow> py_error + string" where
  "encrypt L drawn data key =
     and_then (json_dumps L data) (\<lambda>data_text. fernet_encrypt L drawn key data_text)"

definition decrypt :: "libraries \<Rightarrow> string \<Rightarrow> bytes \<Rightarrow> py_error + string" where
  "decrypt L data key = fernet_decrypt L key data"

section \<open>frost: the key generation\<close>

text \<open>
  The dictionaries that the rounds exchange. A text is kept as its UTF-8 bytes.
\<close>

record pop_signature =
  pop_nonce :: int
  pop_signature :: string

record round1_data =
  r1_sender_id :: string
  r1_public_fx :: "int list"
  r1_coefficient0_signature :: pop_signature
  r1_public_key :: int
  r1_secret_signature :: pop_signature
  r1_key_type :: string

record malicious_entry =
  malicious_id :: string
  malicious_complaint :: round1_data

record round2_data =
  r2_receiver_id :: string
  r2_sender_id :: string
  r2_data :: string

record dkg_key_pair =
  kp_share :: int
  kp_dkg_public_key :: int

text \<open>
  The dictionary that \<^verbatim>\<open>__create_complaint\<close> returns, and the two dictionaries that
  \<^verbatim>\<open>round3\<close> returns: \<^verbatim>\<open>{"status": "COMPLAINT", "data": complaints}\<close> and the one with
  \<^verbatim>\<open>"status": "SUCCESSFUL"\<close>.
\<close>

record complaint_proof =
  proof_public_nonce :: int
  proof_nonce :: int
  proof_signature :: int

record complaint =
  complaintant :: string
  malicious :: string
  encryption_key :: int
  complaint_proof :: complaint_proof

datatype round3_result =
    COMPLAINT "complaint list"
  | SUCCESSFUL (dkg_public_key: int) (public_share: int) (result_key_pair: dkg_key_pair)
      (result_key_type: string)

text \<open>
  \<^verbatim>\<open>class KeyGen\<close>. \<^verbatim>\<open>__init__\<close> sets the first eight attributes; the others are
  created by the rounds, and \<open>None\<close> is an attribute that does not exist yet, whose read
  raises \<^verbatim>\<open>AttributeError\<close>.
\<close>

record keygen =
  kg_threshold :: nat
  kg_dkg_id :: string
  kg_node_id :: string
  kg_partners :: "string list"
  kg_coefficient0 :: "int option"
  kg_malicious :: "malicious_entry list"
  kg_key_type :: string
  kg_status :: string
  kg_secret_key :: "int option"
  kg_fx :: "polynomial option"
  kg_public_fx :: "point list option"
  kg_coef0_signature :: "pop_signature option"
  kg_round1_broadcasted_data :: "round1_data list option"
  kg_partners_public_keys :: "(string \<rightharpoonup> int) option"
  kg_dkg_key_pair :: "dkg_key_pair option"

definition new_keygen ::
  "string \<Rightarrow> nat \<Rightarrow> string \<Rightarrow> string list \<Rightarrow> int option \<Rightarrow> string \<Rightarrow> keygen" where
  "new_keygen dkg_id t node_id partners coefficient0 key_type =
     \<lparr>kg_threshold = t, kg_dkg_id = dkg_id, kg_node_id = node_id, kg_partners = partners,
      kg_coefficient0 = coefficient0, kg_malicious = [], kg_key_type = key_type,
      kg_status = ''STARTED'',
      kg_secret_key = None, kg_fx = None, kg_public_fx = None, kg_coef0_signature = None,
      kg_round1_broadcasted_data = None, kg_partners_public_keys = None,
      kg_dkg_key_pair = None\<rparr>"

text \<open>
  The hash that a proof of possession signs:
  \<^verbatim>\<open>sha256(id.encode() + dkg_id.encode() + key.to_bytes(33, "big") + nonce.to_bytes(33, "big"))\<close>
  read as a big-endian integer.
\<close>

definition pop_hash :: "libraries \<Rightarrow> string \<Rightarrow> string \<Rightarrow> int \<Rightarrow> int \<Rightarrow> py_error + int" where
  "pop_hash L node_id dkg_id key_code nonce_code =
     and_then (to_bytes 33 key_code) (\<lambda>key_bytes.
     and_then (to_bytes 33 nonce_code) (\<lambda>nonce_bytes.
       Inr (from_bytes (sha256 L (node_id @ dkg_id @ key_bytes @ nonce_bytes)))))"

text \<open>
  \<^verbatim>\<open>KeyGen.round2\<close>. The body of the loop over the broadcasts checks the two proofs
  of possession of a sender, appends the sender to \<^verbatim>\<open>self.malicious\<close> when one fails,
  and records the sender's public key in \<^verbatim>\<open>self.partners_public_keys\<close>.
\<close>

definition round2_check :: "libraries \<Rightarrow> round1_data \<Rightarrow> keygen \<Rightarrow> (py_error + unit) \<times> keygen" where
  "round2_check L data self =
     (let sender_id = r1_sender_id data
      in if sender_id = kg_node_id self then (Inr (), self)
      else
        let sender_public_fx = r1_public_fx data;
            sender_coef0_nonce = pop_nonce (r1_coefficient0_signature data);
            sender_coef0_signature = pop_signature (r1_coefficient0_signature data)
        in
        or_raise (first_item sender_public_fx) self (\<lambda>sender_public_fx0.
        or_raise (pop_hash L sender_id (kg_dkg_id self) sender_public_fx0 sender_coef0_nonce)
          self (\<lambda>coef0_pop_hash.
        or_raise (code_to_pub L sender_public_fx0) self (\<lambda>coef0_point.
        or_raise (schnorr_verify L coef0_point coef0_pop_hash sender_coef0_signature)
          self (\<lambda>coef0_verification.
        let sender_public_key = r1_public_key data;
            sender_public_nonce = pop_nonce (r1_secret_signature data);
            sender_secret_signature = pop_signature (r1_secret_signature data)
        in
        or_raise (pop_hash L sender_id (kg_dkg_id self) sender_public_key sender_public_nonce)
          self (\<lambda>secret_pop_hash.
        or_raise (code_to_pub L sender_public_key) self (\<lambda>sender_point.
        or_raise (schnorr_verify L sender_point secret_pop_hash sender_secret_signature)
          self (\<lambda>secret_verification.
        let self1 =
              (if \<not> secret_verification \<or> \<not> coef0_verification
               then self\<lparr>kg_malicious := kg_malicious self
                            @ [\<lparr>malicious_id = sender_id, malicious_complaint = data\<rparr>]\<rparr>
               else self)
        in
        or_raise (attribute (kg_partners_public_keys self1)) self1 (\<lambda>partners_public_keys.
          (Inr (), self1\<lparr>kg_partners_public_keys :=
                          Some (partners_public_keys(sender_id \<mapsto> sender_public_key))\<rparr>))))))))))"

text \<open>
  The body of the loop over the qualified partners: the joint key, the key derived from
  it, and the encrypted value of the polynomial at the partner's identifier.
\<close>

definition round2_send ::
  "libraries \<Rightarrow> keygen \<Rightarrow> int \<Rightarrow> polynomial \<Rightarrow> (nat \<Rightarrow> bytes) \<Rightarrow> nat \<times> string
     \<Rightarrow> py_error + round2_data" where
  "round2_send L self secret_key fx drawn item =
     (let id = snd item
      in
      and_then (attribute (kg_partners_public_keys self)) (\<lambda>partners_public_keys.
      and_then (dict_get partners_public_keys id) (\<lambda>partner_code.
      and_then (code_to_pub L partner_code) (\<lambda>partner_point.
      and_then (point_mul (order L) secret_key partner_point) (\<lambda>joint_point.
      and_then (pub_to_code L joint_point) (\<lambda>encryption_joint_key.
      and_then (generate_hkdf_key (hkdf_derive L) encryption_joint_key) (\<lambda>encryption_key.
      and_then (int_of_str L id) (\<lambda>id_as_int.
      and_then (encrypt L (drawn (fst item))
                  \<lparr>payload_receiver_id = id, payload_f = evaluate fx id_as_int\<rparr>
                  encryption_key) (\<lambda>encrypted.
        Inr \<lparr>r2_receiver_id = id, r2_sender_id = kg_node_id self,
             r2_data = encrypted\<rparr>)))))))))"

text \<open>
  The method; \<open>drawn k\<close> is what the \<open>k\<close>-th encryption of the call draws.
  \<^verbatim>\<open>qualified = self.partners\<close> is the same list object, so removing the malicious
  identifiers from it (\<^verbatim>\<open>list.remove\<close> takes the first occurrence away, and the
  exception of an absent one is caught) changes \<^verbatim>\<open>self.partners\<close> too.
\<close>

definition round2 ::
  "libraries \<Rightarrow> keygen \<Rightarrow> (nat \<Rightarrow> bytes) \<Rightarrow> round1_data list
     \<Rightarrow> (py_error + round2_data list) \<times> keygen" where
  "round2 L self drawn round1_broadcasted_data =
     (let self1 = self\<lparr>kg_round1_broadcasted_data := Some round1_broadcasted_data\<rparr>
      in
      or_raise (attribute (kg_fx self1)) self1 (\<lambda>fx.
      let self2 = self1\<lparr>kg_partners_public_keys := Some Map.empty\<rparr>
      in
      or_raise (attribute (kg_secret_key self2)) self2 (\<lambda>secret_key.
      case for_each (round2_check L) round1_broadcasted_data self2 of
        (Inl e, self3) \<Rightarrow> (Inl e, self3)
      | (Inr _, self3) \<Rightarrow>
          let qualified = foldl (\<lambda>qs node. remove1 (malicious_id node) qs)
                            (kg_partners self3) (kg_malicious self3);
              self4 = self3\<lparr>kg_partners := qualified\<rparr>
          in
          or_raise (map_err (round2_send L self4 secret_key fx drawn)
                      (zip [0..<length qualified] qualified)) self4 (\<lambda>result_data.
            (Inr result_data, self4\<lparr>kg_status := ''ROUND2''\<rparr>)))))"

text \<open>
  \<^verbatim>\<open>KeyGen.round3\<close>. The inner loop of a message runs over the broadcasts of round 1:
  for the broadcast of the sender it compares the point computed from the sender's public
  coefficients with the point of the received value. On a difference the code evaluates
  \<^verbatim>\<open>self.complain(...)\<close>; neither \<^verbatim>\<open>__init__\<close> nor the class defines an attribute
  \<^verbatim>\<open>complain\<close>, so the read raises \<^verbatim>\<open>AttributeError\<close> before anything is appended.
\<close>

definition round3_feldman ::
  "libraries \<Rightarrow> keygen \<Rightarrow> string \<Rightarrow> share_payload \<Rightarrow> round1_data
     \<Rightarrow> complaint list \<Rightarrow> py_error + complaint list" where
  "round3_feldman L self sender_id data round1_data complaints =
     (if r1_sender_id round1_data = sender_id then
        let public_fx = r1_public_fx round1_data
        in
        and_then (map_err (code_to_pub L) public_fx) (\<lambda>points.
        and_then (int_of_str L (kg_node_id self)) (\<lambda>node_int.
        and_then (calc_poly_point (order L) points node_int) (\<lambda>point1.
        and_then (point_mul (order L) (payload_f data) (G (order L))) (\<lambda>point2.
          if point1 \<noteq> point2 then Inl AttributeError else Inr complaints))))
      else Inr complaints)"

text \<open>
  The body of the loop over the messages; its state is the pair of the lists
  \<^verbatim>\<open>round2_data\<close> and \<^verbatim>\<open>complaints\<close>.
\<close>

definition round3_message ::
  "libraries \<Rightarrow> keygen \<Rightarrow> int \<Rightarrow> (string \<rightharpoonup> int) \<Rightarrow> round2_data
     \<Rightarrow> share_payload list \<times> complaint list
     \<Rightarrow> py_error + (share_payload list \<times> complaint list)" where
  "round3_message L self secret_key partners_public_keys message st =
     (let sender_id = r2_sender_id message;
          receiver_id = r2_receiver_id message;
          encrypted_data = r2_data message
      in
      and_then (dict_get partners_public_keys sender_id) (\<lambda>sender_code.
      and_then (code_to_pub L sender_code) (\<lambda>sender_point.
      and_then (point_mul (order L) secret_key sender_point) (\<lambda>joint_point.
      and_then (pub_to_code L joint_point) (\<lambda>encryption_joint_key.
      and_then (generate_hkdf_key (hkdf_derive L) encryption_joint_key) (\<lambda>encryption_key.
      if receiver_id \<noteq> kg_node_id self then Inl AssertionError
      else
        and_then (decrypt L encrypted_data encryption_key) (\<lambda>text.
        and_then (json_loads L text) (\<lambda>data.
        and_then (attribute (kg_round1_broadcasted_data self)) (\<lambda>broadcasts.
        and_then (fold_err (round3_feldman L self sender_id data) broadcasts (snd st))
          (\<lambda>complaints.
          Inr (fst st @ [data], complaints)))))))))))"

text \<open>
  The method. Until \<^verbatim>\<open>self.dkg_key_pair\<close> is assigned near the end, an exception
  leaves the object as it was.
\<close>

definition round3 ::
  "libraries \<Rightarrow> keygen \<Rightarrow> round2_data list \<Rightarrow> (py_error + round3_result) \<times> keygen" where
  "round3 L self round2_encrypted_data =
     or_raise (attribute (kg_secret_key self)) self (\<lambda>secret_key.
     or_raise (attribute (kg_partners_public_keys self)) self (\<lambda>partners_public_keys.
     or_raise (fold_err (round3_message L self secret_key partners_public_keys)
                 round2_encrypted_data ([], [])) self (\<lambda>(round2_data, complaints).
     if length complaints > 0
     then (Inr (COMPLAINT complaints), self\<lparr>kg_status := ''COMPLAINT''\<rparr>)
     else
       or_raise (attribute (kg_fx self)) self (\<lambda>fx.
       or_raise (int_of_str L (kg_node_id self)) self (\<lambda>node_int.
       let my_fragment = evaluate fx node_int;
           share_fragments = my_fragment # map payload_f round2_data
       in
       or_raise (attribute (kg_public_fx self)) self (\<lambda>self_public_fx.
       or_raise (first_item self_public_fx) self (\<lambda>public_fx0.
       or_raise (attribute (kg_round1_broadcasted_data self)) self (\<lambda>broadcasts.
       or_raise (map_err (\<lambda>data. and_then (first_item (r1_public_fx data)) (code_to_pub L))
                   (filter (\<lambda>data. r1_sender_id data \<in> set (kg_partners self)) broadcasts))
         self (\<lambda>partner_points.
       let public_fx = public_fx0 # partner_points;
           dkg_public_key = foldl (point_add (order L)) (hd public_fx) (tl public_fx);
           share = sum_list share_fragments
       in
       or_raise (pub_to_code L dkg_public_key) self (\<lambda>dkg_public_code.
       let self1 = self\<lparr>kg_dkg_key_pair :=
                      Some \<lparr>kp_share = share, kp_dkg_public_key = dkg_public_code\<rparr>\<rparr>
       in
       or_raise (pub_to_code L (get_public_key (order L) share)) self1 (\<lambda>public_share_code.
         (Inr (SUCCESSFUL dkg_public_code public_share_code
                 \<lparr>kp_share = share, kp_dkg_public_key = dkg_public_code\<rparr> (kg_key_type self)),
          self1\<lparr>kg_status := ''COMPLETED''\<rparr>))))))))))))"

section \<open>frost: signing\<close>











text \<open>
  \<^verbatim>\<open>class Key\<close>: \<^verbatim>\<open>__init__\<close> takes a key dictionary with the keys \<^verbatim>\<open>share\<close>,
  \<^verbatim>\<open>dkg_public_key\<close> and \<^verbatim>\<open>key_type\<close> and decodes its public key, and \<^verbatim>\<open>sign\<close>
  passes the attributes and the nonce pair to \<^verbatim>\<open>single_sign\<close>.
\<close>

record key =
  key_share :: int
  key_dkg_public_key :: point
  key_node_id :: string
  key_key_type :: string



section \<open>An instance of the libraries for evaluation\<close>

text \<open>
  A small instance of the library record, on the group of order 7, on which the rounds can
  be evaluated: the encoding of the point \<open>P\<close> is the two bytes 04 and \<open>P\<close>, the identity has
  no encoding, encryption leaves the text as it is, and the texts \<^verbatim>\<open>f11\<close> and \<^verbatim>\<open>f12\<close>
  stand for the dictionaries with the values 11 and 12; every hexadecimal text is read
  as 0 and every hash is 0, so that the signature \<open>toy_signature\<close> passes every check.
  Then a session of the party \<^verbatim>\<open>1\<close> with the partner \<^verbatim>\<open>2\<close>: as \<^verbatim>\<open>__init__\<close> makes it
  (\<open>toy_new\<close>); with the attributes that the first round creates when the party draws the
  secret key 3 and the polynomial \<open>3 + 5x\<close> (\<open>toy_round1\<close>); as the second round leaves
  it on the broadcasts of the party and of a partner who drew the secret key 2 and the
  polynomial \<open>5 + 6x\<close> (\<open>toy_keygen\<close>); and as the third round leaves it
  (\<open>toy_completed\<close>). The partner's value for the party is 11 (\<open>toy_share\<close>);
  \<open>toy_bad_share\<close> carries 12 instead.
\<close>

definition toy_lib :: libraries where
  "toy_lib =
     \<lparr>order = 7,
      point_x = (\<lambda>P. P),
      point_y = (\<lambda>P. P),
      sec1_encode = (\<lambda>P. if 0 < P \<and> P < 7 then Inr [char_of (4::nat), char_of (nat P)]
                          else Inl AttributeError),
      sec1_decode = (\<lambda>b. case b of
                             [c, d] \<Rightarrow> if c = char_of (4::nat) \<and> 0 < (of_char d :: nat)
                                           \<and> (of_char d :: nat) < 7
                                        then Inr (int (of_char d)) else Inl ValueError
                           | _ \<Rightarrow> Inl ValueError),
      keccak = (\<lambda>n. Inr (replicate 32 (CHR 0x00))),
      hexbytes_hex = (\<lambda>b. replicate 64 CHR ''0''),
      to_checksum_address = (\<lambda>s. Inr s),
      sha256 = (\<lambda>b. replicate 32 (CHR 0x00)),
      hkdf_derive = (\<lambda>b. take 32 (b @ replicate 32 (CHR 0x00))),
      fernet_encrypt = (\<lambda>drawn key data. Inr data),
      fernet_decrypt = (\<lambda>key data. Inr data),
      json_dumps = (\<lambda>p. Inr (CHR ''f'' # str_base 10 (nat (payload_f p)))),
      json_loads = (\<lambda>s. if s = ''f11'' then Inr \<lparr>payload_receiver_id = ''1'', payload_f = 11\<rparr>
                         else if s = ''f12'' then Inr \<lparr>payload_receiver_id = ''1'', payload_f = 12\<rparr>
                         else Inl ValueError),
      int_of_str = (\<lambda>s. if s = ''1'' then Inr 1 else if s = ''2'' then Inr 2
                         else if s = ''4'' then Inr 4 else Inl ValueError),
      int_of_hex = (\<lambda>s. Inr 0)\<rparr>"

definition toy_signature :: string where
  "toy_signature = ''0x'' @ replicate 128 CHR ''0''"

definition toy_broadcasts :: "round1_data list" where
  "toy_broadcasts =
     [\<lparr>r1_sender_id = ''1'', r1_public_fx = [1027, 1029],
       r1_coefficient0_signature = \<lparr>pop_nonce = 1025, pop_signature = toy_signature\<rparr>,
       r1_public_key = 1027,
       r1_secret_signature = \<lparr>pop_nonce = 1025, pop_signature = toy_signature\<rparr>,
       r1_key_type = ''ETH''\<rparr>,
      \<lparr>r1_sender_id = ''2'', r1_public_fx = [1029, 1030],
       r1_coefficient0_signature = \<lparr>pop_nonce = 1025, pop_signature = toy_signature\<rparr>,
       r1_public_key = 1026,
       r1_secret_signature = \<lparr>pop_nonce = 1025, pop_signature = toy_signature\<rparr>,
       r1_key_type = ''ETH''\<rparr>]"

definition toy_new :: keygen where
  "toy_new = new_keygen ''dkg'' 2 ''1'' [''2''] None ''ETH''"

definition toy_round1 :: keygen where
  "toy_round1 =
     toy_new
       \<lparr>kg_status := ''ROUND1'',
        kg_secret_key := Some 3,
        kg_fx := Some \<lparr>threshold = 2, coefficients = [3, 5]\<rparr>,
        kg_public_fx := Some [3, 5],
        kg_coef0_signature := Some \<lparr>pop_nonce = 1025, pop_signature = toy_signature\<rparr>\<rparr>"

definition toy_keygen :: keygen where
  "toy_keygen =
     toy_round1
       \<lparr>kg_status := ''ROUND2'',
        kg_round1_broadcasted_data := Some toy_broadcasts,
        kg_partners_public_keys := Some [''2'' \<mapsto> 1026]\<rparr>"


definition toy_bad_share :: round2_data where
  "toy_bad_share = \<lparr>r2_receiver_id = ''1'', r2_sender_id = ''2'', r2_data = ''f12''\<rparr>"





section \<open>Theorems\<close>

subsection \<open>Sequencing\<close>

lemma and_then_Inr [simp]: "and_then (Inr v) k = k v"
  by (simp add: and_then_def)

lemma and_then_Inl [simp]: "and_then (Inl e) k = Inl e"
  by (simp add: and_then_def)

lemma and_then_eq_Inr:
  "and_then r k = Inr y \<longleftrightarrow> (\<exists>v. r = Inr v \<and> k v = Inr y)"
  by (cases r) simp_all

subsection \<open>Primes\<close>

lemma is_prime_coprime:
  assumes "is_prime p" and "a mod p \<noteq> 0"
  shows "coprime a p"
proof -
  define g where "g = gcd a p"
  have p1: "1 < p" using assms(1) by (simp add: is_prime_def)
  have gp: "g dvd p" and ga: "g dvd a" by (simp_all add: g_def)
  have g0: "0 \<le> g" by (simp add: g_def)
  have "g \<noteq> 0" using gp p1 by auto
  hence g1: "1 \<le> g" using g0 by simp
  have gle: "g \<le> p" using gp p1 by (simp add: zdvd_imp_le)
  have "g \<noteq> p" using ga assms(2) by (auto simp: mod_eq_0_iff_dvd)
  hence "g < p" using gle by simp
  hence "g = 1"
  proof -
    have "\<not> (2 \<le> g)"
    proof
      assume "2 \<le> g"
      hence "g \<in> {2..<p}" using \<open>g < p\<close> by simp
      thus False using assms(1) gp by (auto simp: is_prime_def)
    qed
    thus ?thesis using g1 by simp
  qed
  thus ?thesis by (simp add: g_def coprime_iff_gcd_eq_1)
qed

lemma is_prime_dvd_mult:
  assumes "is_prime p" and "p dvd a * b"
  shows "p dvd a \<or> p dvd b"
proof (cases "p dvd a")
  case True thus ?thesis by simp
next
  case False
  hence "coprime a p" using assms(1) by (intro is_prime_coprime) (auto simp: mod_eq_0_iff_dvd)
  hence "coprime p a" by (simp add: coprime_commute)
  thus ?thesis using assms(2) by (simp add: coprime_dvd_mult_right_iff)
qed

subsection \<open>The modular inverse\<close>

lemma mod_inverse_loop_correct:
  assumes "1 \<le> a" "0 \<le> m" "coprime a m" "x * y \<le> 0"
    and "a * \<bar>y\<bar> + m * \<bar>x\<bar> = m0" "\<bar>x\<bar> < m0"
    and "(x * a0) mod m0 = a mod m0" "(y * a0) mod m0 = m mod m0"
  shows "\<exists>r. mod_inverse_loop a m x y = Inr r \<and> \<bar>r\<bar> < m0 \<and> (r * a0) mod m0 = 1 mod m0"
  using assms
proof (induction a m x y rule: mod_inverse_loop.induct)
  case (1 a m x y)
  show ?case
  proof (cases "a > 1")
    case False
    with "1.prems" have "a = 1" by simp
    with "1.prems" show ?thesis by (simp add: mod_inverse_loop.simps)
  next
    case True
    have m0: "m \<noteq> 0" using True "1.prems"(3) by auto
    hence mpos: "0 < m" using "1.prems"(2) by simp
    define k where "k = a div m"
    have knn: "0 \<le> k" unfolding k_def using "1.prems"(1) mpos by (simp add: pos_imp_zdiv_nonneg_iff)
    have amod: "a mod m = a - k * m" unfolding k_def by (simp add: minus_div_mult_eq_mod)
    have abs_eq: "\<bar>x - k * y\<bar> = \<bar>x\<bar> + k * \<bar>y\<bar>"
    proof (cases "0 \<le> y")
      case True
      hence ky: "0 \<le> k * y" using knn by simp
      show ?thesis
      proof (cases "y = 0")
        case True thus ?thesis by simp
      next
        case False
        hence "0 < y" using \<open>0 \<le> y\<close> by simp
        hence "x \<le> 0" using "1.prems"(4) by (simp add: mult_le_0_iff)
        thus ?thesis using ky \<open>0 \<le> y\<close> by simp
      qed
    next
      case False
      hence yneg: "y < 0" by simp
      hence "0 \<le> x" using "1.prems"(4) by (simp add: mult_le_0_iff)
      moreover have "k * y \<le> 0" using knn yneg by (simp add: mult_le_0_iff)
      ultimately show ?thesis using yneg by simp
    qed
    have p1: "1 \<le> m" using mpos by simp
    have p2: "0 \<le> a mod m" using mpos by simp
    have p3: "coprime m (a mod m)"
      using "1.prems"(3) m0 by (simp add: coprime_mod_right_iff coprime_commute)
    have p4: "y * (x - k * y) \<le> 0"
    proof -
      have "y * (x - k * y) = x * y - k * (y * y)" by (simp add: algebra_simps)
      moreover have "0 \<le> k * (y * y)" using knn by simp
      ultimately show ?thesis using "1.prems"(4) by linarith
    qed
    have p5: "m * \<bar>x - k * y\<bar> + (a mod m) * \<bar>y\<bar> = m0"
      using "1.prems"(5) by (simp add: abs_eq amod algebra_simps)
    have p6: "\<bar>y\<bar> < m0"
    proof (cases "y = 0")
      case True thus ?thesis using "1.prems"(6) by simp
    next
      case False
      hence y1: "1 \<le> \<bar>y\<bar>" by simp
      have "0 \<le> m * \<bar>x\<bar>" using mpos by simp
      hence "a * \<bar>y\<bar> \<le> m0" using "1.prems"(5) by linarith
      moreover have "2 * \<bar>y\<bar> \<le> a * \<bar>y\<bar>" using True by (simp add: mult_right_mono)
      ultimately show ?thesis using y1 by linarith
    qed
    have p8: "((x - k * y) * a0) mod m0 = (a mod m) mod m0"
    proof -
      have "((x - k * y) * a0) mod m0 = (x * a0 - k * (y * a0)) mod m0"
        by (simp add: algebra_simps)
      also have "\<dots> = (a - k * m) mod m0"
        using "1.prems"(7,8) by (intro mod_diff_cong mod_mult_cong) auto
      finally show ?thesis by (simp add: amod)
    qed
    have "\<exists>r. mod_inverse_loop m (a mod m) y (x - a div m * y) = Inr r
            \<and> \<bar>r\<bar> < m0 \<and> (r * a0) mod m0 = 1 mod m0"
      using "1.IH"[OF True m0 p1 p2 p3] p4 p5 p6 "1.prems"(8) p8 unfolding k_def by blast
    thus ?thesis using True m0 by (subst mod_inverse_loop.simps) simp
  qed
qed

lemma mod_inverse_coprime:
  assumes "1 < m" and "coprime a m"
  shows "\<exists>b. mod_inverse a m = Inr b \<and> 1 \<le> b \<and> b < m \<and> (a * b) mod m = 1"
proof -
  define a0 where "a0 = a mod m"
  have cop: "coprime a0 m" using assms by (simp add: a0_def coprime_mod_left_iff)
  have a0nn: "0 \<le> a0" using assms(1) by (simp add: a0_def)
  have "a0 \<noteq> 0" using cop assms(1) by auto
  hence a01: "1 \<le> a0" using a0nn by simp
  obtain r where r: "mod_inverse_loop a0 m 1 0 = Inr r" "\<bar>r\<bar> < m" "(r * a0) mod m = 1 mod m"
    using mod_inverse_loop_correct[of a0 m 1 0 m a0] a01 assms(1) cop by auto
  define b where "b = (if r < 0 then r + m else r)"
  have res: "mod_inverse a m = Inr b"
    using assms(1) r(1) by (simp add: mod_inverse_def a0_def b_def)
  have brange: "0 \<le> b" "b < m" using r(2) by (auto simp: b_def)
  have "(b * a0) mod m = (r * a0) mod m"
    by (simp add: b_def algebra_simps)
  hence "(b * a0) mod m = 1" using r(3) assms(1) by simp
  hence ab: "(a * b) mod m = 1"
    by (simp add: a0_def mod_mult_right_eq mult.commute)
  have "b \<noteq> 0" using ab assms(1) by auto
  thus ?thesis using res brange ab by auto
qed

lemma mod_inverse_unique:
  assumes "1 \<le> b" "b < m" "(a * b) mod m = 1" "1 \<le> c" "c < m" "(a * c) mod m = (1::int)"
  shows "c = b"
proof -
  have "c mod m = (c * ((a * b) mod m)) mod m" using assms(3) by simp
  also have "\<dots> = (b * ((a * c) mod m)) mod m"
    by (simp add: mod_mult_right_eq algebra_simps)
  also have "\<dots> = b mod m" using assms(6) by simp
  finally show ?thesis using assms by simp
qed

text \<open>
  C6 (as amended). For a prime modulus \<open>n\<close> and every integer \<open>a\<close>: when \<open>a\<close> is not
  0 modulo \<open>n\<close>, \<open>mod_inverse a n\<close> returns the unique \<open>b\<close> in \<open>[1, n)\<close> with
  \<open>a\<cdot>b \<equiv> 1 (mod n)\<close>; when \<open>a\<close> is 0 modulo \<open>n\<close> it raises nothing and returns 1.
\<close>

theorem mod_inverse_prime:
  assumes "is_prime n"
  shows "(a mod n \<noteq> 0 \<longrightarrow>
           (\<exists>b. mod_inverse a n = Inr b \<and> 1 \<le> b \<and> b < n \<and> (a * b) mod n = 1
                \<and> (\<forall>c. 1 \<le> c \<and> c < n \<and> (a * c) mod n = 1 \<longrightarrow> c = b)))
       \<and> (a mod n = 0 \<longrightarrow> mod_inverse a n = Inr 1)"
proof (intro conjI impI)
  assume nz: "a mod n \<noteq> 0"
  have n1: "1 < n" using assms by (simp add: is_prime_def)
  obtain b where b: "mod_inverse a n = Inr b" "1 \<le> b" "b < n" "(a * b) mod n = 1"
    using mod_inverse_coprime[OF n1 is_prime_coprime[OF assms nz]] by blast
  show "\<exists>b. mod_inverse a n = Inr b \<and> 1 \<le> b \<and> b < n \<and> (a * b) mod n = 1
            \<and> (\<forall>c. 1 \<le> c \<and> c < n \<and> (a * c) mod n = 1 \<longrightarrow> c = b)"
    using b mod_inverse_unique[OF b(2,3,4)] by blast
next
  assume z: "a mod n = 0"
  have n1: "1 < n" using assms by (simp add: is_prime_def)
  thus "mod_inverse a n = Inr 1"
    using z by (simp add: mod_inverse_def mod_inverse_loop.simps)
qed

theorem mod_inverse_prime_witness:
  "is_prime 7 \<and> mod_inverse 3 7 = Inr 5 \<and> mod_inverse 14 7 = Inr 1"
proof -
  have p: "is_prime 7" by code_simp
  show ?thesis
    using p mod_inverse_prime[OF p, of 3] mod_inverse_prime[OF p, of 14]
    by (auto simp: mod_inverse_def mod_inverse_loop.simps)
qed

text \<open>
  The claim as stated fails at the curve order: the inverse of 0 is asked for and no
  error is raised.
\<close>

theorem mod_inverse_zero_counterexample:
  "0 mod secp256k1_q = 0 \<and> mod_inverse 0 secp256k1_q = Inr 1"
  by (simp add: mod_inverse_def mod_inverse_loop.simps secp256k1_q_def)

subsection \<open>Polynomial evaluation and the Feldman check\<close>

lemma foldl_add_upt:
  "foldl (\<lambda>result i. result + g i) a [m..<n] = a + (\<Sum>i = m..<n. (g i :: int))"
  by (induction n) (auto simp: sum.atLeastLessThan_Suc)

lemma evaluate_sum:
  "evaluate f x = (\<Sum>i = 0..<length (coefficients f). coefficients f ! i * x ^ i)"
  by (simp add: evaluate_def foldl_add_upt)

lemma fold_err_point_terms:
  "\<forall>i \<in> set js. P i \<noteq> 0 \<Longrightarrow>
   fold_err (\<lambda>i result. and_then (point_mul q (c i) (P i)) (\<lambda>summand.
               Inr (point_add q result summand))) js a
     = Inr (foldl (\<lambda>result i. point_add q result ((c i * P i) mod q)) a js)"
  by (induction js arbitrary: a) (simp_all add: point_mul_def)

lemma foldl_point_add_upt:
  "foldl (\<lambda>result i. point_add q result ((c i * P i) mod q)) a [m..<n]
     = (if n \<le> m then a else (a + (\<Sum>i = m..<n. c i * P i)) mod q)"
proof (induction n)
  case 0 show ?case by simp
next
  case (Suc n)
  show ?case
  proof (cases "n < m")
    case True thus ?thesis by simp
  next
    case False
    hence mn: "m \<le> n" by simp
    show ?thesis
    proof (cases "n = m")
      case True
      thus ?thesis by (simp add: point_add_def mod_add_right_eq)
    next
      case False
      hence "m < n" using mn by simp
      thus ?thesis using Suc
        by (simp add: point_add_def mod_add_eq sum.atLeastLessThan_Suc add.assoc)
    qed
  qed
qed

lemma calc_poly_point_sum:
  assumes "polynomial \<noteq> []" and "\<forall>P \<in> set polynomial. P \<noteq> 0"
  shows "calc_poly_point q polynomial x
           = Inr ((\<Sum>i = 0..<length polynomial. (x ^ i mod q) * polynomial ! i) mod q)"
proof -
  define coefs where "coefs = map (\<lambda>i. x ^ i mod q) [0..<length polynomial]"
  have n: "0 < length polynomial" using assms(1) by simp
  have p0: "polynomial ! 0 \<noteq> 0" using assms(2) n by simp
  have pi: "\<forall>i \<in> set [1..<length polynomial]. polynomial ! i \<noteq> 0"
    using assms(2) by simp
  have c0: "coefs ! 0 = x ^ 0 mod q" using n by (simp add: coefs_def)
  have eq: "foldl (\<lambda>result i. point_add q result ((coefs ! i * polynomial ! i) mod q))
             a [1..<length polynomial]
          = foldl (\<lambda>result i. point_add q result (((x ^ i mod q) * polynomial ! i) mod q))
             a [1..<length polynomial]" for a
    by (rule foldl_cong) (auto simp: coefs_def)
  have split: "(\<Sum>i = 0..<length polynomial. (x ^ i mod q) * polynomial ! i)
      = (x ^ 0 mod q) * polynomial ! 0 + (\<Sum>i = 1..<length polynomial. (x ^ i mod q) * polynomial ! i)"
    using n by (simp add: sum.atLeast_Suc_lessThan)
  have loop: "foldl (\<lambda>result i. point_add q result (((x ^ i mod q) * polynomial ! i) mod q))
          (((x ^ 0 mod q) * polynomial ! 0) mod q) [1..<length polynomial]
        = (\<Sum>i = 0..<length polynomial. (x ^ i mod q) * polynomial ! i) mod q"
  proof (cases "length polynomial \<le> 1")
    case True
    hence "length polynomial = 1" using n by linarith
    thus ?thesis by simp
  next
    case False
    thus ?thesis
      unfolding foldl_point_add_upt split by (simp add: mod_add_left_eq)
  qed
  have "calc_poly_point q polynomial x
      = and_then (point_mul q (coefs ! 0) (polynomial ! 0)) (\<lambda>result0.
          fold_err (\<lambda>i result.
                      and_then (point_mul q (coefs ! i) (polynomial ! i)) (\<lambda>summand.
                        Inr (point_add q result summand)))
            [1..<length polynomial] result0)"
    using assms(1) unfolding calc_poly_point_def Let_def coefs_def by simp
  also have "\<dots> = fold_err (\<lambda>i result.
                      and_then (point_mul q (coefs ! i) (polynomial ! i)) (\<lambda>summand.
                        Inr (point_add q result summand)))
            [1..<length polynomial] (((x ^ 0 mod q) * polynomial ! 0) mod q)"
    using p0 by (simp add: point_mul_def c0)
  also have "\<dots> = Inr (foldl (\<lambda>result i. point_add q result ((coefs ! i * polynomial ! i) mod q))
                       (((x ^ 0 mod q) * polynomial ! 0) mod q) [1..<length polynomial])"
    by (rule fold_err_point_terms[OF pi])
  finally show ?thesis unfolding eq loop .
qed

lemma calc_poly_point_identity:
  assumes "polynomial \<noteq> []" and "polynomial ! 0 = 0"
  shows "calc_poly_point q polynomial x = Inl AttributeError"
  using assms by (simp add: calc_poly_point_def Let_def point_mul_def)

lemma get_public_key_mod: "get_public_key q d = d mod q"
  by (simp add: get_public_key_def G_def mod_mult_right_eq)

lemma calc_poly_point_coef_pub_keys:
  assumes "coefficients f \<noteq> []" and "\<forall>c \<in> set (coefficients f). c mod q \<noteq> 0"
  shows "calc_poly_point q (coef_pub_keys q f) x = Inr (evaluate f x mod q)"
proof -
  have ne: "coef_pub_keys q f \<noteq> []" using assms(1) by (simp add: coef_pub_keys_def)
  have nz: "\<forall>P \<in> set (coef_pub_keys q f). P \<noteq> 0"
    using assms(2) by (auto simp: coef_pub_keys_def get_public_key_mod)
  have len: "length (coef_pub_keys q f) = length (coefficients f)"
    by (simp add: coef_pub_keys_def)
  have "(\<Sum>i = 0..<length (coefficients f). (x ^ i mod q) * (coef_pub_keys q f) ! i) mod q
      = (\<Sum>i = 0..<length (coefficients f). ((x ^ i mod q) * (coef_pub_keys q f) ! i) mod q) mod q"
    by (simp add: mod_sum_eq)
  also have "\<dots> = (\<Sum>i = 0..<length (coefficients f). (coefficients f ! i * x ^ i) mod q) mod q"
  proof -
    have "((x ^ i mod q) * (coef_pub_keys q f) ! i) mod q = (coefficients f ! i * x ^ i) mod q"
      if "i < length (coefficients f)" for i
      using that
      by (simp add: coef_pub_keys_def get_public_key_mod mod_mult_eq mult.commute)
    hence "(\<Sum>i = 0..<length (coefficients f). ((x ^ i mod q) * (coef_pub_keys q f) ! i) mod q)
         = (\<Sum>i = 0..<length (coefficients f). (coefficients f ! i * x ^ i) mod q)"
      by (intro sum.cong) auto
    thus ?thesis by simp
  qed
  also have "\<dots> = evaluate f x mod q"
    by (simp add: evaluate_sum mod_sum_eq)
  finally show ?thesis
    using calc_poly_point_sum[OF ne nz, of q x] by (simp add: len)
qed

text \<open>
  C4, as the specification states it, fails: a polynomial whose constant coefficient is 0
  has the identity as its first public coefficient key, and \<open>calc_poly_point\<close> raises
  \<^verbatim>\<open>AttributeError\<close> on it instead of returning the point \<open>evaluate f 4 \<cdot> G\<close>, here
  \<open>20\<cdot>G\<close>.
\<close>

theorem calc_poly_point_identity_counterexample:
  "evaluate \<lparr>threshold = 2, coefficients = [0, 5]\<rparr> 4 = 20
   \<and> calc_poly_point secp256k1_q
        (coef_pub_keys secp256k1_q \<lparr>threshold = 2, coefficients = [0, 5]\<rparr>) 4
       = Inl AttributeError"
proof -
  have "evaluate \<lparr>threshold = 2, coefficients = [0, 5]\<rparr> 4 = 20"
    by (simp add: evaluate_def numeral_2_eq_2)
  moreover have "calc_poly_point secp256k1_q
        (coef_pub_keys secp256k1_q \<lparr>threshold = 2, coefficients = [0, 5]\<rparr>) 4
       = Inl AttributeError"
    by (rule calc_poly_point_identity) (simp_all add: coef_pub_keys_def get_public_key_mod)
  ultimately show ?thesis by simp
qed

text \<open>
  C4, amended. For every polynomial with at least one coefficient, none of them a multiple
  of the group order, and every integer \<open>x\<close>, \<open>calc_poly_point\<close> on the public coefficient
  keys returns the point \<open>evaluate f x \<cdot> G\<close>; hence the Feldman check
  \<open>v\<cdot>G = calc_poly_point \<dots>\<close> accepts exactly the values \<open>v\<close> congruent to \<open>evaluate f x\<close>
  modulo the group order.
\<close>

theorem calc_poly_point_feldman:
  assumes "coefficients f \<noteq> []" and "\<forall>c \<in> set (coefficients f). c mod q \<noteq> 0"
  shows "calc_poly_point q (coef_pub_keys q f) x = Inr (get_public_key q (evaluate f x))
       \<and> (\<forall>v. (Inr (get_public_key q v) = calc_poly_point q (coef_pub_keys q f) x)
               \<longleftrightarrow> v mod q = evaluate f x mod q)"
  unfolding calc_poly_point_coef_pub_keys[OF assms] get_public_key_mod by simp

theorem calc_poly_point_feldman_witness:
  "calc_poly_point 7 (coef_pub_keys 7 \<lparr>threshold = 2, coefficients = [3, 5]\<rparr>) 4
     = Inr (get_public_key 7 (evaluate \<lparr>threshold = 2, coefficients = [3, 5]\<rparr> 4))
   \<and> Inr (get_public_key 7 2) = calc_poly_point 7 (coef_pub_keys 7 \<lparr>threshold = 2, coefficients = [3, 5]\<rparr>) 4"
proof -
  have e: "evaluate \<lparr>threshold = 2, coefficients = [3, 5]\<rparr> 4 = 23"
    by (simp add: evaluate_def numeral_2_eq_2)
  show ?thesis
    using calc_poly_point_feldman[of "\<lparr>threshold = 2, coefficients = [3, 5]\<rparr>" 7 4]
    by (simp add: e get_public_key_mod)
qed

subsection \<open>Polynomial functions\<close>

lemma sum_upt_shift:
  "(\<Sum>i = 0..<Suc n. g i) = g 0 + (\<Sum>i = 0..<n. (g (Suc i) :: int))"
  by (induction n) simp_all

lemma evaluate_poly_eval_aux:
  "(\<Sum>i = 0..<length cs. cs ! i * x ^ i) = poly_eval cs x"
proof (induction cs)
  case Nil show ?case by simp
next
  case (Cons c cs)
  have "(\<Sum>i = 0..<length (c # cs). (c # cs) ! i * x ^ i)
      = (\<Sum>i = 0..<Suc (length cs). (c # cs) ! i * x ^ i)" by simp
  also have "\<dots> = c + (\<Sum>i = 0..<length cs. cs ! i * x ^ Suc i)"
    unfolding sum_upt_shift by simp
  also have "(\<Sum>i = 0..<length cs. cs ! i * x ^ Suc i)
           = x * (\<Sum>i = 0..<length cs. cs ! i * x ^ i)"
    by (simp add: sum_distrib_left algebra_simps)
  finally show ?case using Cons by simp
qed

lemma evaluate_poly_eval: "evaluate f x = poly_eval (coefficients f) x"
  by (simp add: evaluate_sum evaluate_poly_eval_aux)

lemma poly_eval_add:
  "\<exists>es. length es = max (length cs) (length ds)
       \<and> (\<forall>x. poly_eval es x = poly_eval cs x + poly_eval ds x)"
proof (induction cs arbitrary: ds)
  case Nil
  show ?case by (rule exI[of _ ds]) simp
next
  case (Cons c cs)
  show ?case
  proof (cases ds)
    case Nil
    show ?thesis unfolding Nil by (rule exI[of _ "c # cs"]) simp
  next
    case (Cons d ds')
    obtain es where es: "length es = max (length cs) (length ds')"
      "\<forall>x. poly_eval es x = poly_eval cs x + poly_eval ds' x"
      using Cons.IH[of ds'] by blast
    show ?thesis unfolding Cons
      by (rule exI[of _ "(c + d) # es"]) (simp add: es algebra_simps)
  qed
qed

lemma poly_eval_smult: "poly_eval (map (\<lambda>c. a * c) cs) x = a * poly_eval cs x"
  by (induction cs) (simp_all add: algebra_simps)

lemma polyfun_mono: "polyfun n g \<Longrightarrow> n \<le> m \<Longrightarrow> polyfun m g"
  unfolding polyfun_def by (meson le_trans)

lemma polyfun_const: "polyfun (Suc 0) (\<lambda>x. c)"
  unfolding polyfun_def by (rule exI[of _ "[c]"]) simp

lemma polyfun_add:
  assumes "polyfun n g" and "polyfun n h"
  shows "polyfun n (\<lambda>x. g x + h x)"
proof -
  obtain cs ds where cs: "length cs \<le> n" "\<forall>x. g x = poly_eval cs x"
    and ds: "length ds \<le> n" "\<forall>x. h x = poly_eval ds x"
    using assms unfolding polyfun_def by blast
  obtain es where es: "length es = max (length cs) (length ds)"
      "\<forall>x. poly_eval es x = poly_eval cs x + poly_eval ds x"
    using poly_eval_add by blast
  show ?thesis unfolding polyfun_def
    by (rule exI[of _ es]) (use cs ds es in auto)
qed

lemma polyfun_smult:
  assumes "polyfun n g"
  shows "polyfun n (\<lambda>x. a * g x)"
proof -
  obtain cs where cs: "length cs \<le> n" "\<forall>x. g x = poly_eval cs x"
    using assms unfolding polyfun_def by blast
  show ?thesis unfolding polyfun_def
    by (rule exI[of _ "map (\<lambda>c. a * c) cs"]) (use cs in \<open>simp add: poly_eval_smult\<close>)
qed

lemma polyfun_shift:
  assumes "polyfun n g"
  shows "polyfun (Suc n) (\<lambda>x. x * g x)"
proof -
  obtain cs where cs: "length cs \<le> n" "\<forall>x. g x = poly_eval cs x"
    using assms unfolding polyfun_def by blast
  show ?thesis unfolding polyfun_def
    by (rule exI[of _ "0 # cs"]) (use cs in simp)
qed

lemma polyfun_linear_factor:
  assumes "polyfun n g"
  shows "polyfun (Suc n) (\<lambda>x. (x - a) * g x)"
proof -
  have "polyfun (Suc n) (\<lambda>x. (- a) * g x)"
    by (rule polyfun_mono[OF polyfun_smult[OF assms]]) simp
  hence "polyfun (Suc n) (\<lambda>x. x * g x + (- a) * g x)"
    by (rule polyfun_add[OF polyfun_shift[OF assms]])
  moreover have "(\<lambda>x. x * g x + (- a) * g x) = (\<lambda>x. (x - a) * g x)"
    by (auto simp: algebra_simps)
  ultimately show ?thesis by simp
qed

lemma polyfun_prod_list:
  "polyfun (Suc (length as)) (\<lambda>x. prod_list (map (\<lambda>a. x - a) as))"
proof (induction as)
  case Nil
  show ?case using polyfun_const[of 1] by simp
next
  case (Cons a as)
  show ?case using polyfun_linear_factor[OF Cons, of a] by simp
qed

lemma polyfun_sum:
  assumes "\<And>j. j \<in> set js \<Longrightarrow> polyfun n (g j)"
  shows "polyfun n (\<lambda>x. \<Sum>j\<leftarrow>js. g j x)"
  using assms
proof (induction js)
  case Nil
  show ?case unfolding polyfun_def by (rule exI[of _ "[]"]) simp
next
  case (Cons j js)
  have "polyfun n (\<lambda>x. g j x + (\<Sum>j\<leftarrow>js. g j x))"
    by (intro polyfun_add) (use Cons in auto)
  thus ?case by simp
qed

lemma divide_linear_step:
  "c + x * ((x - r) * d + v) = (x - r) * (v + x * d) + (c + r * (v::int))"
  by (simp add: algebra_simps)

lemma poly_eval_divide_linear:
  assumes "cs \<noteq> []"
  shows "\<exists>ds. Suc (length ds) = length cs
            \<and> (\<forall>x. poly_eval cs x = (x - r) * poly_eval ds x + poly_eval cs r)"
  using assms
proof (induction cs)
  case Nil thus ?case by simp
next
  case (Cons c cs)
  show ?case
  proof (cases "cs = []")
    case True
    show ?thesis unfolding True by (rule exI[of _ "[]"]) simp
  next
    case False
    then obtain ds where ds: "Suc (length ds) = length cs"
        "\<forall>x. poly_eval cs x = (x - r) * poly_eval ds x + poly_eval cs r"
      using Cons.IH by blast
    show ?thesis
    proof (rule exI[of _ "poly_eval cs r # ds"], intro conjI allI)
      show "Suc (length (poly_eval cs r # ds)) = length (c # cs)" using ds(1) by simp
      fix x
      have e: "poly_eval cs x = (x - r) * poly_eval ds x + poly_eval cs r"
        using ds(2) by blast
      have "poly_eval (c # cs) x = c + x * poly_eval cs x" by simp
      also have "\<dots> = c + x * ((x - r) * poly_eval ds x + poly_eval cs r)"
        by (simp only: e)
      also have "\<dots> = (x - r) * poly_eval (poly_eval cs r # ds) x + poly_eval (c # cs) r"
        unfolding poly_eval.simps by (rule divide_linear_step)
      finally show "poly_eval (c # cs) x
              = (x - r) * poly_eval (poly_eval cs r # ds) x + poly_eval (c # cs) r" .
    qed
  qed
qed

lemma poly_eval_roots:
  assumes "is_prime q"
    and "length cs \<le> length rs"
    and "\<forall>i<length rs. \<forall>j<length rs. i \<noteq> j \<longrightarrow> (rs ! i - rs ! j) mod q \<noteq> 0"
    and "\<forall>r \<in> set rs. poly_eval cs r mod q = 0"
  shows "poly_eval cs x mod q = 0"
  using assms(2-)
proof (induction rs arbitrary: cs x)
  case Nil
  thus ?case by simp
next
  case (Cons r rs)
  show ?case
  proof (cases "cs = []")
    case True thus ?thesis by simp
  next
    case False
    then obtain ds where ds: "Suc (length ds) = length cs"
        "\<forall>x. poly_eval cs x = (x - r) * poly_eval ds x + poly_eval cs r"
      using poly_eval_divide_linear by blast
    have r0: "poly_eval cs r mod q = 0" using Cons.prems(3) by simp
    have len: "length ds \<le> length rs" using ds(1) Cons.prems(1) by simp
    have dist: "\<forall>i<length rs. \<forall>j<length rs. i \<noteq> j \<longrightarrow> (rs ! i - rs ! j) mod q \<noteq> 0"
    proof (intro allI impI)
      fix i j assume "i < length rs" "j < length rs" "i \<noteq> j"
      thus "(rs ! i - rs ! j) mod q \<noteq> 0"
        using Cons.prems(2)[rule_format, of "Suc i" "Suc j"] by simp
    qed
    have roots: "\<forall>r' \<in> set rs. poly_eval ds r' mod q = 0"
    proof
      fix r' assume r': "r' \<in> set rs"
      then obtain i where i: "i < length rs" "rs ! i = r'" by (auto simp: in_set_conv_nth)
      have ne: "(r' - r) mod q \<noteq> 0"
        using Cons.prems(2)[rule_format, of "Suc i" 0] i by simp
      have e: "poly_eval cs r' = (r' - r) * poly_eval ds r' + poly_eval cs r"
        using ds(2) by blast
      have "poly_eval cs r' mod q = 0" using Cons.prems(3) r' by simp
      hence "q dvd poly_eval cs r'" by (simp add: mod_eq_0_iff_dvd)
      hence "q dvd (r' - r) * poly_eval ds r' + poly_eval cs r" by (simp only: e)
      moreover have "q dvd poly_eval cs r" using r0 by (simp add: mod_eq_0_iff_dvd)
      ultimately have "q dvd (r' - r) * poly_eval ds r'" by (simp add: dvd_add_left_iff)
      hence "q dvd poly_eval ds r'"
        using is_prime_dvd_mult[OF assms(1)] ne by (auto simp: mod_eq_0_iff_dvd)
      thus "poly_eval ds r' mod q = 0" by (simp add: mod_eq_0_iff_dvd)
    qed
    have "poly_eval ds x mod q = 0" by (rule Cons.IH[OF len dist roots])
    hence "q dvd (x - r) * poly_eval ds x" by (simp add: mod_eq_0_iff_dvd)
    moreover have "q dvd poly_eval cs r" using r0 by (simp add: mod_eq_0_iff_dvd)
    ultimately have "q dvd (x - r) * poly_eval ds x + poly_eval cs r" by (rule dvd_add)
    moreover have "poly_eval cs x = (x - r) * poly_eval ds x + poly_eval cs r"
      using ds(2) by blast
    ultimately have "q dvd poly_eval cs x" by (simp only:)
    thus ?thesis by (simp add: mod_eq_0_iff_dvd)
  qed
qed

subsection \<open>Lagrange interpolation\<close>

text \<open>The numerator and the denominator that \<open>langrange_coef\<close> computes.\<close>

lemma prod_list_mod_nonzero:
  assumes "is_prime q" and "\<forall>a \<in> set as. a mod q \<noteq> 0"
  shows "prod_list as mod q \<noteq> 0"
  using assms(2)
proof (induction as)
  case Nil
  have "1 < q" using assms(1) by (simp add: is_prime_def)
  thus ?case by simp
next
  case (Cons a as)
  have "\<not> q dvd a" "\<not> q dvd prod_list as"
    using Cons by (auto simp: mod_eq_0_iff_dvd)
  hence "\<not> q dvd a * prod_list as" using is_prime_dvd_mult[OF assms(1)] by blast
  thus ?case by (simp add: mod_eq_0_iff_dvd)
qed

lemma langrange_coef_value:
  assumes "is_prime q" and "length ids = t" and "j < t"
    and "\<forall>i<t. \<forall>k<t. i \<noteq> k \<longrightarrow> (ids ! i - ids ! k) mod q \<noteq> 0"
  shows "\<exists>w. (\<forall>x. langrange_coef q j t ids x
                   = Inr (w * prod_list (map (\<lambda>k. x - ids ! k) (filter (\<lambda>i. i \<noteq> j) [0..<t]))))
           \<and> (w * prod_list (map (\<lambda>k. ids ! j - ids ! k) (filter (\<lambda>i. i \<noteq> j) [0..<t]))) mod q = 1"
proof -
  define ks where "ks = filter (\<lambda>i. i \<noteq> j) [0..<t]"
  define denum where "denum = prod_list (map (\<lambda>k. ids ! j - ids ! k) ks)"
  have q1: "1 < q" using assms(1) by (simp add: is_prime_def)
  have "\<forall>a \<in> set (map (\<lambda>k. ids ! j - ids ! k) ks). a mod q \<noteq> 0"
    using assms(3,4) by (auto simp: ks_def)
  hence "denum mod q \<noteq> 0" unfolding denum_def by (rule prod_list_mod_nonzero[OF assms(1)])
  hence "coprime denum q" by (rule is_prime_coprime[OF assms(1)])
  then obtain w where w: "mod_inverse denum q = Inr w" "(denum * w) mod q = 1"
    using mod_inverse_coprime[OF q1] by blast
  have noidx: "\<not> (\<exists>k \<in> set ks. length ids \<le> k)" using assms(2) by (auto simp: ks_def)
  have "langrange_coef q j t ids x = Inr (w * prod_list (map (\<lambda>k. x - ids ! k) ks))" for x
    using assms(2,3) noidx w(1)
    unfolding langrange_coef_def Let_def ks_def[symmetric] denum_def[symmetric] by simp
  thus ?thesis using w(2) unfolding ks_def denum_def by (auto simp: mult.commute)
qed

lemma reconstruct_loop_sum:
  assumes "\<forall>j \<in> set js. langrange_coef q j t (map share_id shares) x = Inr (c j)"
  shows "\<exists>r. reconstruct_loop q shares t x js s = Inr r
           \<and> r mod q = (s + (\<Sum>j\<leftarrow>js. share_key (shares ! j) * c j)) mod q"
  using assms
proof (induction js arbitrary: s)
  case Nil
  show ?case by simp
next
  case (Cons j js)
  obtain r where r: "reconstruct_loop q shares t x js
                       ((s + (share_key (shares ! j) * c j) mod q) mod q) = Inr r"
      "r mod q = ((s + (share_key (shares ! j) * c j) mod q) mod q
                   + (\<Sum>j\<leftarrow>js. share_key (shares ! j) * c j)) mod q"
    using Cons.IH[of "(s + (share_key (shares ! j) * c j) mod q) mod q"] Cons.prems by auto
  have "r mod q = (s + share_key (shares ! j) * c j
                   + (\<Sum>j\<leftarrow>js. share_key (shares ! j) * c j)) mod q"
    unfolding r(2) by (simp add: mod_add_left_eq mod_add_right_eq)
  thus ?case using r(1) Cons.prems by (simp add: add.assoc)
qed

lemma sum_list_upt_single:
  assumes "m < t" and "\<forall>j<t. j \<noteq> m \<longrightarrow> f j = (0::int)"
  shows "(\<Sum>j\<leftarrow>[0..<t]. f j) = f m"
proof -
  have "(\<Sum>j\<leftarrow>[0..<t]. f j) = sum f {0..<t}"
    by (simp add: interv_sum_list_conv_sum_set_nat)
  also have "\<dots> = f m + sum f ({0..<t} - {m})"
    using assms(1) by (simp add: sum.remove)
  also have "sum f ({0..<t} - {m}) = 0"
    using assms(2) by (intro sum.neutral) auto
  finally show ?thesis by simp
qed

lemma lagrange_interpolation:
  assumes "is_prime q" and "length ids = t" and "length cs \<le> t"
    and dist: "\<forall>i<t. \<forall>k<t. i \<noteq> k \<longrightarrow> (ids ! i - ids ! k) mod q \<noteq> 0"
    and keys: "\<forall>j<t. key j mod q = poly_eval cs (ids ! j) mod q"
    and ws: "\<forall>j<t. (w j * prod_list (map (\<lambda>k. ids ! j - ids ! k)
                                  (filter (\<lambda>i. i \<noteq> j) [0..<t]))) mod q = 1"
  shows "(\<Sum>j\<leftarrow>[0..<t]. key j * (w j * prod_list (map (\<lambda>k. x - ids ! k)
                                  (filter (\<lambda>i. i \<noteq> j) [0..<t])))) mod q
           = poly_eval cs x mod q"
proof -
  define num where "num j y = prod_list (map (\<lambda>k. y - ids ! k) (filter (\<lambda>i. i \<noteq> j) [0..<t]))"
    for j y
  define L where "L y = (\<Sum>j\<leftarrow>[0..<t]. key j * (w j * num j y))" for y
  define g where "g y = L y + (- 1) * poly_eval cs y" for y
  have len_filter: "length (filter (\<lambda>i. i \<noteq> j) [0..<t]) = t - 1" if "j < t" for j
  proof -
    have "length (filter (\<lambda>i. i \<noteq> j) [0..<t]) = card {i \<in> set [0..<t]. i \<noteq> j}"
      by (simp add: distinct_length_filter Int_def conj_commute)
    also have "{i \<in> set [0..<t]. i \<noteq> j} = {0..<t} - {j}" by auto
    also have "card \<dots> = t - 1" using that by simp
    finally show ?thesis .
  qed
  have pnum: "polyfun t (num j)" if "j < t" for j
  proof -
    have "polyfun (Suc (length (map (\<lambda>k. ids ! k) (filter (\<lambda>i. i \<noteq> j) [0..<t]))))
            (\<lambda>y. prod_list (map (\<lambda>a. y - a) (map (\<lambda>k. ids ! k) (filter (\<lambda>i. i \<noteq> j) [0..<t]))))"
      by (rule polyfun_prod_list)
    moreover have "(\<lambda>y. prod_list (map (\<lambda>a. y - a) (map (\<lambda>k. ids ! k) (filter (\<lambda>i. i \<noteq> j) [0..<t]))))
                 = num j"
      by (auto simp: num_def comp_def)
    ultimately show ?thesis using that len_filter[OF that] by simp
  qed
  have pL: "polyfun t L"
  proof -
    have "polyfun t (\<lambda>y. \<Sum>j\<leftarrow>[0..<t]. key j * (w j * num j y))"
    proof (rule polyfun_sum)
      fix j assume "j \<in> set [0..<t]"
      hence "j < t" by simp
      have "polyfun t (\<lambda>y. w j * num j y)" by (rule polyfun_smult[OF pnum[OF \<open>j < t\<close>]])
      thus "polyfun t (\<lambda>y. key j * (w j * num j y))" by (rule polyfun_smult)
    qed
    thus ?thesis by (simp add: L_def[abs_def])
  qed
  have "polyfun (length cs) (poly_eval cs)" unfolding polyfun_def by blast
  hence "polyfun t (poly_eval cs)" using assms(3) by (rule polyfun_mono)
  hence "polyfun t (\<lambda>y. (- 1) * poly_eval cs y)" by (rule polyfun_smult)
  hence "polyfun t g" unfolding g_def[abs_def] by (rule polyfun_add[OF pL])
  then obtain es where es: "length es \<le> t" "\<forall>y. g y = poly_eval es y"
    unfolding polyfun_def by blast
  have roots: "\<forall>r \<in> set ids. poly_eval es r mod q = 0"
  proof
    fix r assume "r \<in> set ids"
    then obtain m where m: "m < t" "ids ! m = r" using assms(2) by (auto simp: in_set_conv_nth)
    have zero: "key j * (w j * num j r) = 0" if "j < t" "j \<noteq> m" for j
    proof -
      have "m \<in> set (filter (\<lambda>i. i \<noteq> j) [0..<t])" using m(1) that by simp
      hence "r - ids ! m \<in> set (map (\<lambda>k. r - ids ! k) (filter (\<lambda>i. i \<noteq> j) [0..<t]))"
        unfolding set_map by (rule imageI)
      hence "0 \<in> set (map (\<lambda>k. r - ids ! k) (filter (\<lambda>i. i \<noteq> j) [0..<t]))"
        using m(2) by simp
      hence "num j r = 0" unfolding num_def by (simp only: prod_list_zero_iff)
      thus ?thesis by simp
    qed
    have "L r = key m * (w m * num m r)"
      unfolding L_def using zero m(1) by (intro sum_list_upt_single) auto
    moreover have nm: "num m r = prod_list (map (\<lambda>k. ids ! m - ids ! k) (filter (\<lambda>i. i \<noteq> m) [0..<t]))"
      by (simp add: num_def m(2))
    ultimately have "L r mod q = (key m * ((w m * num m r) mod q)) mod q"
      by (simp add: mod_mult_right_eq)
    also have "(w m * num m r) mod q = 1"
      using ws m(1) nm by simp
    finally have "L r mod q = poly_eval cs r mod q" using keys m by simp
    hence "(L r - poly_eval cs r) mod q = 0"
      by (metis mod_diff_cong cancel_comm_monoid_add_class.diff_cancel mod_0)
    thus "poly_eval es r mod q = 0" using es(2) by (simp add: g_def)
  qed
  have "poly_eval es x mod q = 0"
    using poly_eval_roots[OF assms(1) _ _ roots, of x] es(1) assms(2) dist by simp
  hence "(L x - poly_eval cs x) mod q = 0" using es(2) by (simp add: g_def)
  hence "L x mod q = poly_eval cs x mod q"
    by (metis mod_eq_dvd_iff mod_0_imp_dvd)
  thus ?thesis by (simp add: L_def num_def)
qed

text \<open>
  C5. For a prime group order, every coefficient list of at most \<open>t\<close> entries (degree at
  most \<open>t - 1\<close>), every list of \<open>t\<close> shares whose identifiers are pairwise distinct modulo
  the order and whose keys are the values of the polynomial at the identifiers reduced
  modulo the order, and every integer \<open>x\<close>, \<open>reconstruct_share\<close> returns the value of the
  polynomial at \<open>x\<close> reduced modulo the order; at \<open>x = 0\<close> this is the constant term.
\<close>

theorem reconstruct_share_interpolates:
  assumes "is_prime q" and "length shares = t" and "length (coefficients f) \<le> t"
    and "\<forall>i<t. \<forall>k<t. i \<noteq> k \<longrightarrow> (share_id (shares ! i) - share_id (shares ! k)) mod q \<noteq> 0"
    and "\<forall>j<t. share_key (shares ! j) = evaluate f (share_id (shares ! j)) mod q"
  shows "reconstruct_share q shares t x = Inr (evaluate f x mod q)
       \<and> (coefficients f \<noteq> [] \<longrightarrow>
            reconstruct_share q shares t 0 = Inr (hd (coefficients f) mod q))"
proof -
  define ids where "ids = map share_id shares"
  have len: "length ids = t" using assms(2) by (simp add: ids_def)
  have dist: "\<forall>i<t. \<forall>k<t. i \<noteq> k \<longrightarrow> (ids ! i - ids ! k) mod q \<noteq> 0"
    using assms(2,4) by (simp add: ids_def)
  have keys: "\<forall>j<t. share_key (shares ! j) mod q = poly_eval (coefficients f) (ids ! j) mod q"
    using assms(2,5) by (simp add: ids_def evaluate_poly_eval)
  have "\<forall>j. \<exists>w. j < t \<longrightarrow>
          (\<forall>y. langrange_coef q j t ids y
                 = Inr (w * prod_list (map (\<lambda>k. y - ids ! k) (filter (\<lambda>i. i \<noteq> j) [0..<t]))))
        \<and> (w * prod_list (map (\<lambda>k. ids ! j - ids ! k) (filter (\<lambda>i. i \<noteq> j) [0..<t]))) mod q = 1"
    using langrange_coef_value[OF assms(1) len _ dist] by blast
  then obtain w where w: "\<forall>j. j < t \<longrightarrow>
          (\<forall>y. langrange_coef q j t ids y
                 = Inr (w j * prod_list (map (\<lambda>k. y - ids ! k) (filter (\<lambda>i. i \<noteq> j) [0..<t]))))
        \<and> (w j * prod_list (map (\<lambda>k. ids ! j - ids ! k) (filter (\<lambda>i. i \<noteq> j) [0..<t]))) mod q = 1"
    by metis
  have main: "reconstruct_share q shares t y = Inr (evaluate f y mod q)" for y
  proof -
    define c where "c j = w j * prod_list (map (\<lambda>k. y - ids ! k) (filter (\<lambda>i. i \<noteq> j) [0..<t]))"
      for j
    have "\<forall>j \<in> set [0..<t]. langrange_coef q j t (map share_id shares) y = Inr (c j)"
      using w by (simp add: c_def ids_def)
    then obtain r where r: "reconstruct_loop q shares t y [0..<t] 0 = Inr r"
        "r mod q = (0 + (\<Sum>j\<leftarrow>[0..<t]. share_key (shares ! j) * c j)) mod q"
      using reconstruct_loop_sum[of "[0..<t]" q t shares y c 0] by blast
    have "(\<Sum>j\<leftarrow>[0..<t]. share_key (shares ! j) * c j) mod q
            = poly_eval (coefficients f) y mod q"
      unfolding c_def
      by (rule lagrange_interpolation[OF assms(1) len assms(3) dist keys]) (use w in blast)
    hence "r mod q = evaluate f y mod q" using r(2) by (simp add: evaluate_poly_eval)
    thus ?thesis using r(1) assms(2) by (simp add: reconstruct_share_def)
  qed
  have "evaluate f 0 = hd (coefficients f)" if "coefficients f \<noteq> []"
    using that by (cases "coefficients f") (simp_all add: evaluate_poly_eval)
  thus ?thesis using main by auto
qed

theorem reconstruct_share_interpolates_witness:
  "is_prime 7
   \<and> reconstruct_share 7 [\<lparr>share_id = 1, share_key = 1\<rparr>, \<lparr>share_id = 2, share_key = 6\<rparr>] 2 5
       = Inr (evaluate \<lparr>threshold = 2, coefficients = [3, 5]\<rparr> 5 mod 7)
   \<and> reconstruct_share 7 [\<lparr>share_id = 1, share_key = 1\<rparr>, \<lparr>share_id = 2, share_key = 6\<rparr>] 2 0
       = Inr 3"
proof -
  have p: "is_prime 7" by code_simp
  have ev: "evaluate \<lparr>threshold = n, coefficients = [3, 5]\<rparr> x = 3 + x * 5" for x n
    by (simp add: evaluate_poly_eval)
  have d: "\<forall>i<2. \<forall>k<2. i \<noteq> k \<longrightarrow>
          (share_id ([\<lparr>share_id = 1, share_key = 1\<rparr>, \<lparr>share_id = 2, share_key = 6\<rparr>] ! i)
           - share_id ([\<lparr>share_id = 1, share_key = 1\<rparr>, \<lparr>share_id = 2, share_key = 6\<rparr>] ! k)) mod 7 \<noteq> 0"
    by (auto simp: less_Suc_eq numeral_2_eq_2)
  have k: "\<forall>j<2. share_key ([\<lparr>share_id = 1, share_key = 1\<rparr>, \<lparr>share_id = 2, share_key = 6\<rparr>] ! j)
           = evaluate \<lparr>threshold = 2, coefficients = [3, 5]\<rparr>
               (share_id ([\<lparr>share_id = 1, share_key = 1\<rparr>, \<lparr>share_id = 2, share_key = 6\<rparr>] ! j)) mod 7"
    by (auto simp: less_Suc_eq numeral_2_eq_2 ev)
  show ?thesis
    using p reconstruct_share_interpolates[OF p _ _ d k, of 5]
      reconstruct_share_interpolates[OF p _ _ d k, of 0]
    by simp
qed

subsection \<open>Digit strings\<close>

lemma of_char_char_of_small: "n < 256 \<Longrightarrow> (of_char (char_of n) :: nat) = n"
  by simp



lemma str_base_digits:
  "2 \<le> b \<Longrightarrow> \<forall>c \<in> set (str_base b n). is_digit_of b c"
proof (induction b n rule: str_base.induct)
  case (1 b n)
  show ?case
  proof (cases "n < b")
    case True
    thus ?thesis by (subst str_base.simps) (auto simp: is_digit_of_def)
  next
    case False
    have "n mod b < b" using "1.prems" by simp
    hence "is_digit_of b (digit_char (n mod b))" unfolding is_digit_of_def by blast
    thus ?thesis using False 1 by (subst str_base.simps) auto
  qed
qed



lemma str_base_nonempty: "str_base b n \<noteq> []"
  by (subst str_base.simps) simp



subsection \<open>Lengths of digit strings\<close>




subsection \<open>The key derivation\<close>




lemma small_key_below_limit:
  assumes "key < 10 ^ 4"
  shows "key < (10::int) ^ max_str_digits"
proof -
  have "(10::int) ^ 4 \<le> 10 ^ max_str_digits"
    by (rule power_increasing) (simp_all add: max_str_digits_def)
  thus ?thesis using assms by linarith
qed




subsection \<open>The key generation rounds\<close>

lemma or_raise_Inl [simp]: "or_raise (Inl e) self k = (Inl e, self)"
  by (simp add: or_raise_def)

lemma or_raise_Inr [simp]: "or_raise (Inr v) self k = k v"
  by (simp add: or_raise_def)

lemma attribute_None [simp]: "attribute None = Inl AttributeError"
  by (simp add: attribute_def)

lemma attribute_Some [simp]: "attribute (Some v) = Inr v"
  by (simp add: attribute_def)

lemma round3_feldman_complaints:
  "round3_feldman L self sender_id data rd cs = Inr cs' \<Longrightarrow> cs' = cs"
  by (auto simp: round3_feldman_def Let_def and_then_eq_Inr split: if_splits)

lemma fold_round3_feldman_complaints:
  "fold_err (round3_feldman L self sender_id data) rds cs = Inr cs' \<Longrightarrow> cs' = cs"
proof (induction rds arbitrary: cs)
  case Nil thus ?case by simp
next
  case (Cons rd rds)
  then obtain c1 where 1: "round3_feldman L self sender_id data rd cs = Inr c1"
    and 2: "fold_err (round3_feldman L self sender_id data) rds c1 = Inr cs'"
    by (auto simp: and_then_eq_Inr)
  have "c1 = cs" using 1 by (rule round3_feldman_complaints)
  thus ?case using Cons.IH 2 by simp
qed

lemma round3_message_state:
  assumes "round3_message L self secret_key ppk message st = Inr st'"
  shows "snd st' = snd st \<and> (\<exists>data. fst st' = fst st @ [data])"
proof -
  obtain data broadcasts complaints where
    f: "fold_err (round3_feldman L self (r2_sender_id message) data) broadcasts (snd st) = Inr complaints"
    and s: "st' = (fst st @ [data], complaints)"
    using assms
    by (auto simp: round3_message_def Let_def and_then_eq_Inr split: if_splits)
  have "complaints = snd st" using f by (rule fold_round3_feldman_complaints)
  thus ?thesis using s by auto
qed

lemma fold_round3_message_state:
  "fold_err (round3_message L self secret_key ppk) messages st = Inr st' \<Longrightarrow>
   snd st' = snd st \<and> length (fst st') = length (fst st) + length messages"
proof (induction messages arbitrary: st)
  case Nil thus ?case by simp
next
  case (Cons m ms)
  then obtain s1 where 1: "round3_message L self secret_key ppk m st = Inr s1"
    and 2: "fold_err (round3_message L self secret_key ppk) ms s1 = Inr st'"
    by (auto simp: and_then_eq_Inr)
  have a: "snd s1 = snd st \<and> (\<exists>data. fst s1 = fst st @ [data])"
    using 1 by (rule round3_message_state)
  have b: "snd st' = snd s1 \<and> length (fst st') = length (fst s1) + length ms"
    using Cons.IH[OF 2] .
  show ?case using a b by auto
qed

lemma round3_cases:
  "(\<exists>e s. round3 L self messages = (Inl e, s))
   \<or> (\<exists>pk ps kp kt s. round3 L self messages = (Inr (SUCCESSFUL pk ps kp kt), s))"
proof (cases "fold_err (round3_message L self (the (kg_secret_key self))
                 (the (kg_partners_public_keys self))) messages ([], [])")
  case (Inl e)
  thus ?thesis
    by (cases "kg_secret_key self"; cases "kg_partners_public_keys self")
       (simp_all add: round3_def)
next
  case (Inr st')
  have c: "snd st' = []" using fold_round3_message_state[OF Inr] by simp
  obtain ds where st': "st' = (ds, [])" using c by (cases st') simp
  show ?thesis
    using Inr st'
    by (cases "kg_secret_key self"; cases "kg_partners_public_keys self")
       (auto simp: round3_def Let_def or_raise_def split: sum.splits)
qed

lemma round3_never_complains:
  "fst (round3 L self messages) \<noteq> Inr (COMPLAINT complaints)"
  using round3_cases[of L self messages] by auto









subsection \<open>The rounds on the instance\<close>

lemma py_str_small: "0 \<le> n \<Longrightarrow> n < 10 ^ 4 \<Longrightarrow> py_str n = Inr (decimal_digits n)"
  using small_key_below_limit[of n] by (simp add: py_str_def)

lemma digit_char_not_x: "d < 16 \<Longrightarrow> digit_char d \<noteq> CHR ''x''"
proof
  assume d: "d < 16" and "digit_char d = CHR ''x''"
  hence "(of_char (digit_char d) :: nat) = of_char CHR ''x''" by simp
  thus False using d by (simp add: digit_char_def split: if_splits)
qed

lemma code_to_pub_nonneg:
  assumes "0 \<le> key"
  shows "code_to_pub L key
           = and_then (fromhex (CHR ''0'' # str_base 16 (nat key))) (sec1_decode L)"
proof -
  have "\<forall>c \<in> set (str_base 16 (nat key)). c \<noteq> CHR ''x''"
    using str_base_digits[of 16 "nat key"] digit_char_not_x
    unfolding is_digit_of_def by fastforce
  hence "filter (\<lambda>c. c \<noteq> CHR ''x'') (str_base 16 (nat key)) = str_base 16 (nat key)"
    by (simp add: filter_id_conv)
  thus ?thesis using assms by (simp add: code_to_pub_def py_hex_def)
qed

lemma toy_code_to_pub:
  "code_to_pub toy_lib 1026 = Inr 2" "code_to_pub toy_lib 1029 = Inr 5"
  "code_to_pub toy_lib 1030 = Inr 6"
  by (simp_all add: code_to_pub_nonneg toy_lib_def str_base.simps digit_char_def
        hex_val_def is_space_def Let_def)

lemma toy_pub_to_code:
  "pub_to_code toy_lib 1 = Inr 1025" "pub_to_code toy_lib 5 = Inr 1029"
  "pub_to_code toy_lib 6 = Inr 1030"
  by (simp_all add: pub_to_code_def toy_lib_def from_bytes_def)

lemma toy_hkdf: "\<exists>k. generate_hkdf_key (hkdf_derive toy_lib) 1030 = Inr k"
  by (simp add: generate_hkdf_key_def py_str_small decimal_digits_def str_base.simps
        digit_char_def hex_val_def is_space_def Let_def)

lemma toy_calc: "calc_poly_point 7 [5, 6] 1 = Inr 4"
  by (simp add: calc_poly_point_def Let_def point_mul_def point_add_def)

lemma toy_fields:
  "order toy_lib = 7" "int_of_str toy_lib ''1'' = Inr 1"
  "fernet_decrypt toy_lib k t = Inr t"
  "json_loads toy_lib ''f11'' = Inr \<lparr>payload_receiver_id = ''1'', payload_f = 11\<rparr>"
  "json_loads toy_lib ''f12'' = Inr \<lparr>payload_receiver_id = ''1'', payload_f = 12\<rparr>"
  by (simp_all add: toy_lib_def)

lemma toy_attributes:
  "kg_secret_key toy_keygen = Some 3"
  "kg_partners_public_keys toy_keygen = Some [''2'' \<mapsto> 1026]"
  "kg_fx toy_keygen = Some \<lparr>threshold = 2, coefficients = [3, 5]\<rparr>"
  "kg_public_fx toy_keygen = Some [3, 5]"
  "kg_round1_broadcasted_data toy_keygen = Some toy_broadcasts"
  "kg_node_id toy_keygen = ''1''" "kg_partners toy_keygen = [''2'']"
  "kg_key_type toy_keygen = ''ETH''"
  by (simp_all add: toy_keygen_def toy_round1_def toy_new_def new_keygen_def)


lemma from_bytes_zeros: "from_bytes (replicate n (CHR 0x00)) = 0"
proof -
  have "foldl (\<lambda>acc c. acc * 256 + of_char c) (0::nat) (replicate n (CHR 0x00)) = 0"
    by (induction n) simp_all
  thus ?thesis by (simp add: from_bytes_def)
qed

lemma toy_sha256: "from_bytes (sha256 toy_lib b) = 0"
  using from_bytes_zeros[of 32] by (simp add: toy_lib_def)

lemma toy_schnorr_verify:
  assumes "P \<noteq> 0"
  shows "schnorr_verify toy_lib P m toy_signature = Inr True"
proof -
  have f: "order toy_lib = 7" "int_of_hex toy_lib t = Inr 0"
    "keccak toy_lib n = Inr (replicate 32 (CHR 0x00))"
    "to_checksum_address toy_lib t = Inr t" for t n
    by (simp_all add: toy_lib_def)
  have sp: "split_signature toy_lib toy_signature = Inr \<lparr>sig_s = 0, sig_e = 0\<rparr>"
    by (simp add: split_signature_def toy_signature_def Let_def f)
  have h: "schnorr_hash toy_lib 0 m = Inr (replicate 32 (CHR 0x00))"
    by (simp add: schnorr_hash_def pub_to_addr_def Let_def f)
  show ?thesis
    using assms
    by (simp add: schnorr_verify_def sp f point_mul_def G_def point_add_def h from_bytes_zeros)
qed

lemma toy_pop_hash:
  "pop_hash toy_lib a b 1029 1025 = Inr 0" "pop_hash toy_lib a b 1026 1025 = Inr 0"
  by (simp_all add: pop_hash_def to_bytes_def toy_sha256)

lemma toy_round2_check:
  "for_each (round2_check toy_lib) toy_broadcasts
     (toy_round1\<lparr>kg_round1_broadcasted_data := Some toy_broadcasts,
                 kg_partners_public_keys := Some Map.empty\<rparr>)
   = (Inr (), toy_round1\<lparr>kg_round1_broadcasted_data := Some toy_broadcasts,
                          kg_partners_public_keys := Some [''2'' \<mapsto> 1026]\<rparr>)"
  by (simp add: toy_broadcasts_def round2_check_def Let_def toy_round1_def toy_new_def
        new_keygen_def first_item_def toy_pop_hash toy_code_to_pub toy_schnorr_verify)

lemma toy_round2:
  "round2 toy_lib toy_round1 (\<lambda>k. []) toy_broadcasts
   = (Inr [\<lparr>r2_receiver_id = ''2'', r2_sender_id = ''1'', r2_data = ''f13''\<rparr>], toy_keygen)"
proof -
  obtain k where k: "generate_hkdf_key (hkdf_derive toy_lib) 1030 = Inr k"
    using toy_hkdf by blast
  have digits: "str_base 10 13 = ''13''" by code_simp
  have a: "kg_fx toy_round1 = Some \<lparr>threshold = 2, coefficients = [3, 5]\<rparr>"
    "kg_secret_key toy_round1 = Some 3" "kg_partners toy_round1 = [''2'']"
    "kg_malicious toy_round1 = []" "kg_node_id toy_round1 = ''1''"
    by (simp_all add: toy_round1_def toy_new_def new_keygen_def)
  have f: "order toy_lib = 7" "int_of_str toy_lib ''2'' = Inr 2"
    "fernet_encrypt toy_lib d key t = Inr t"
    "json_dumps toy_lib \<lparr>payload_receiver_id = ''2'', payload_f = 13\<rparr> = Inr ''f13''" for d key t
    using digits by (simp_all add: toy_lib_def)
  have e: "evaluate \<lparr>threshold = 2, coefficients = [3, 5]\<rparr> 2 = 13"
    by (simp add: evaluate_def numeral_2_eq_2)
  have send: "round2_send toy_lib
        (toy_round1\<lparr>kg_round1_broadcasted_data := Some toy_broadcasts,
                    kg_partners_public_keys := Some [''2'' \<mapsto> 1026],
                    kg_partners := [''2'']\<rparr>)
        3 \<lparr>threshold = 2, coefficients = [3, 5]\<rparr> (\<lambda>k. []) (0, ''2'')
      = Inr \<lparr>r2_receiver_id = ''2'', r2_sender_id = ''1'', r2_data = ''f13''\<rparr>"
    by (simp add: round2_send_def Let_def dict_get_def toy_code_to_pub point_mul_def f
          toy_pub_to_code k e encrypt_def a)
  show ?thesis
    by (simp add: round2_def Let_def a toy_round2_check send toy_keygen_def)
qed


lemma toy_feldman_bad:
  "fold_err (round3_feldman toy_lib toy_keygen ''2'' \<lparr>payload_receiver_id = ''1'', payload_f = 12\<rparr>)
     toy_broadcasts [] = Inl AttributeError"
  by (simp add: toy_broadcasts_def round3_feldman_def Let_def toy_code_to_pub toy_fields
        toy_attributes toy_calc point_mul_def G_def)


lemma toy_message_bad:
  "round3_message toy_lib toy_keygen 3 [''2'' \<mapsto> 1026] toy_bad_share ([], [])
   = Inl AttributeError"
proof -
  obtain k where k: "generate_hkdf_key (hkdf_derive toy_lib) 1030 = Inr k"
    using toy_hkdf by blast
  show ?thesis
    by (simp add: round3_message_def toy_bad_share_def Let_def dict_get_def toy_code_to_pub
          toy_pub_to_code toy_fields toy_attributes point_mul_def k decrypt_def toy_feldman_bad)
qed



lemma toy_round3_bad:
  "round3 toy_lib toy_keygen [toy_bad_share] = (Inl AttributeError, toy_keygen)"
  by (simp add: round3_def toy_attributes toy_message_bad)

subsection \<open>Claims on the rounds\<close>

text \<open>
  C9. A share that fails the Feldman check does not make \<open>round3\<close> return a complaint:
  the call \<^verbatim>\<open>self.complain(...)\<close> raises \<^verbatim>\<open>AttributeError\<close>, as on the session
  \<open>toy_keygen\<close> when the partner sends 12 instead of 11, and on no input at all does
  \<open>round3\<close> return the result with the status \<^verbatim>\<open>COMPLAINT\<close>.
\<close>

theorem round3_bad_share_raises:
  "round3 toy_lib toy_keygen [toy_bad_share] = (Inl AttributeError, toy_keygen)
   \<and> (\<forall>L self messages complaints.
         fst (round3 L self messages) \<noteq> Inr (COMPLAINT complaints))"
proof -
  have "fst (round3 L self messages) \<noteq> Inr (COMPLAINT complaints)"
    for L self messages complaints
    using round3_cases[of L self messages] by auto
  thus ?thesis using toy_round3_bad by blast
qed







subsection \<open>Signing\<close>
















end
